theory Spec2Isabelle
  imports Complex_Main
begin

section \<open>Data model of helpers.py\<close>

text \<open>
  Node ids are the non-negative integers read from the edge list. A walk is a list of
  node ids and a co-occurrence pair is a Python tuple of two node ids. The options of
  the argument parser that the corpus builder reads are Python integers.
\<close>

type_synonym node = nat
type_synonym walk = "node list"
type_synonym pair = "node \<times> node"

datatype error = IndexError | ValueError | NetworkXError | AssertionError | TypeError

record args =
  walk_length :: int
  number_of_walks :: int
  window_size :: int
  pruning_threshold :: int

subsection \<open>Python list primitives\<close>

text \<open>
  \<open>xs[0:e]\<close> and \<open>xs[s:]\<close>: a negative bound counts from the end of the list, and every
  bound is clamped to the list.
\<close>

definition slice_bound :: "'a list \<Rightarrow> int \<Rightarrow> nat" where
  "slice_bound xs b =
     (let n = int (length xs)
      in nat (if b < 0 then max 0 (b + n) else min b n))"

definition slice_to :: "'a list \<Rightarrow> int \<Rightarrow> 'a list" where
  "slice_to xs e = take (slice_bound xs e) xs"

definition slice_from :: "'a list \<Rightarrow> int \<Rightarrow> 'a list" where
  "slice_from xs s = drop (slice_bound xs s) xs"

text \<open>\<open>xs[i]\<close> for an index that \<open>enumerate\<close> produced (never negative).\<close>

definition getitem :: "'a list \<Rightarrow> nat \<Rightarrow> error + 'a" where
  "getitem xs i = (if i < length xs then Inr (xs ! i) else Inl IndexError)"

text \<open>A list comprehension whose element expression may raise stops at the first raise.\<close>

fun comprehension :: "('a \<Rightarrow> error + 'b) \<Rightarrow> 'a list \<Rightarrow> error + 'b list" where
  "comprehension f [] = Inr []"
| "comprehension f (x # xs) =
     (case f x of
        Inl e \<Rightarrow> Inl e
      | Inr y \<Rightarrow> (case comprehension f xs of Inl e \<Rightarrow> Inl e | Inr ys \<Rightarrow> Inr (y # ys)))"

section \<open>DeepWalker.processor\<close>

text \<open>
  One round of the loop over \<open>omega\<close>: the two slices and the two comprehensions, giving
  the pairs that the round appends to \<open>pairs\<close>.
\<close>

definition forward_pairs :: "walk \<Rightarrow> walk \<Rightarrow> error + pair list" where
  "forward_pairs sources nebs =
     comprehension (\<lambda>(i, source). case getitem nebs i of Inl e \<Rightarrow> Inl e | Inr n \<Rightarrow> Inr (source, n))
       (enumerate 0 sources)"

definition reverse_pairs :: "walk \<Rightarrow> walk \<Rightarrow> error + pair list" where
  "reverse_pairs sources nebs =
     comprehension (\<lambda>(i, source). case getitem nebs i of Inl e \<Rightarrow> Inl e | Inr n \<Rightarrow> Inr (n, source))
       (enumerate 0 sources)"

definition offset_pairs :: "walk \<Rightarrow> int \<Rightarrow> error + pair list" where
  "offset_pairs walk omega =
     (let sources = slice_to walk (int (length walk) - omega);
          nebs = slice_from walk omega
      in case forward_pairs sources nebs of
           Inl e \<Rightarrow> Inl e
         | Inr fw \<Rightarrow> (case reverse_pairs sources nebs of
                        Inl e \<Rightarrow> Inl e
                      | Inr bw \<Rightarrow> Inr (fw @ bw)))"

fun processor_loop :: "walk \<Rightarrow> int list \<Rightarrow> pair list \<Rightarrow> error + pair list" where
  "processor_loop walk [] pairs = Inr pairs"
| "processor_loop walk (omega # omegas) pairs =
     (case offset_pairs walk omega of
        Inl e \<Rightarrow> Inl e
      | Inr new \<Rightarrow> processor_loop walk omegas (pairs @ new))"

definition processor :: "args \<Rightarrow> walk \<Rightarrow> error + pair list" where
  "processor a walk = processor_loop walk [1 .. window_size a] []"

section \<open>The graph store\<close>

text \<open>
  \<open>nx.from_edgelist\<close> builds an undirected simple graph. Its adjacency structure is a
  dictionary from a node to the dictionary of its neighbours, both in insertion order:
  here a list of nodes, each with the list of its neighbours. Adding an edge inserts both
  endpoints as nodes when they are new, and each endpoint as a neighbour of the other
  when it is not one yet.
\<close>

type_synonym graph = "(node \<times> node list) list"

definition add_node :: "node \<Rightarrow> graph \<Rightarrow> graph" where
  "add_node n g = (if map_of g n = None then g @ [(n, [])] else g)"

definition add_neighbor :: "node \<Rightarrow> node \<Rightarrow> graph \<Rightarrow> graph" where
  "add_neighbor u v g =
     map (\<lambda>(n, ns). if n = u then (n, if v \<in> set ns then ns else ns @ [v]) else (n, ns)) g"

definition add_edge :: "node \<Rightarrow> node \<Rightarrow> graph \<Rightarrow> graph" where
  "add_edge u v g = add_neighbor v u (add_neighbor u v (add_node v (add_node u g)))"

definition from_edgelist :: "(node \<times> node) list \<Rightarrow> graph" where
  "from_edgelist edges = foldl (\<lambda>g (u, v). add_edge u v g) [] edges"

definition graph_nodes :: "graph \<Rightarrow> node list" where
  "graph_nodes g = map fst g"

text \<open>\<open>nx.neighbors\<close> raises for a node that is not in the graph.\<close>

definition neighbors :: "graph \<Rightarrow> node \<Rightarrow> error + node list" where
  "neighbors g n = (case map_of g n of None \<Rightarrow> Inl NetworkXError | Some ns \<Rightarrow> Inr ns)"

section \<open>The random generator\<close>

text \<open>
  The process-wide generator is an endless sequence of raw draws and the position of the
  next one. \<open>random.sample(population, 1)\<close> takes one draw below the population's size
  and returns the element at that index, in a list; it raises on an empty population.
\<close>

type_synonym rng = "(nat \<Rightarrow> nat) \<times> nat"

definition randbelow :: "nat \<Rightarrow> rng \<Rightarrow> nat \<times> rng" where
  "randbelow n r = (fst r (snd r) mod n, (fst r, Suc (snd r)))"

definition random_sample1 :: "'a list \<Rightarrow> rng \<Rightarrow> error + ('a list \<times> rng)" where
  "random_sample1 population r =
     (if population = [] then Inl ValueError
      else case randbelow (length population) r of (j, r') \<Rightarrow> Inr ([population ! j], r'))"

section \<open>DeepWalker.do_a_walk and DeepWalker.do_walks\<close>

function do_a_walk_loop :: "graph \<Rightarrow> int \<Rightarrow> walk \<Rightarrow> rng \<Rightarrow> error + (walk \<times> rng)" where
  "do_a_walk_loop g wl nodes r =
     (if int (length nodes) < wl then
        (case neighbors g (last nodes) of
           Inl e \<Rightarrow> Inl e
         | Inr nebs \<Rightarrow>
             if length nebs > 0 then
               (case random_sample1 nebs r of
                  Inl e \<Rightarrow> Inl e
                | Inr (s, r') \<Rightarrow> do_a_walk_loop g wl (nodes @ s) r')
             else Inr (nodes, r))
      else Inr (nodes, r))"
  by pat_completeness auto
termination
  by (relation "measure (\<lambda>(g, wl, nodes, r). nat (wl - int (length nodes)))")
     (auto simp: random_sample1_def randbelow_def split: if_splits)

declare do_a_walk_loop.simps [simp del]

definition do_a_walk :: "args \<Rightarrow> graph \<Rightarrow> node \<Rightarrow> rng \<Rightarrow> error + (walk \<times> rng)" where
  "do_a_walk a g node r = do_a_walk_loop g (walk_length a) [node] r"

text \<open>The inner loop of \<open>do_walks\<close>, over the nodes of the graph, appending to \<open>self.walks\<close>.\<close>

fun walks_from :: "args \<Rightarrow> graph \<Rightarrow> node list \<Rightarrow> walk list \<Rightarrow> rng \<Rightarrow> error + (walk list \<times> rng)" where
  "walks_from a g [] walks r = Inr (walks, r)"
| "walks_from a g (node # rest) walks r =
     (case do_a_walk a g node r of
        Inl e \<Rightarrow> Inl e
      | Inr (walk, r') \<Rightarrow> walks_from a g rest (walks @ [walk]) r')"

text \<open>The outer loop, over \<open>range(number_of_walks)\<close>: the rounds still to run.\<close>

fun do_walks_loop :: "args \<Rightarrow> graph \<Rightarrow> nat \<Rightarrow> walk list \<Rightarrow> rng \<Rightarrow> error + (walk list \<times> rng)" where
  "do_walks_loop a g 0 walks r = Inr (walks, r)"
| "do_walks_loop a g (Suc k) walks r =
     (case walks_from a g (graph_nodes g) walks r of
        Inl e \<Rightarrow> Inl e
      | Inr (walks', r') \<Rightarrow> do_walks_loop a g k walks' r')"

definition do_walks :: "args \<Rightarrow> graph \<Rightarrow> rng \<Rightarrow> error + (walk list \<times> rng)" where
  "do_walks a g r = do_walks_loop a g (nat (number_of_walks a)) [] r"

section \<open>Counting, pruning and the sparse matrix\<close>

text \<open>
  \<open>Counter(iterable)\<close> is a dictionary in insertion order: each element adds one to its
  count, a new element is appended with count one.
\<close>

fun counter_add :: "'k \<Rightarrow> ('k \<times> int) list \<Rightarrow> ('k \<times> int) list" where
  "counter_add k [] = [(k, 1)]"
| "counter_add k ((k', v) # rest) =
     (if k = k' then (k', v + 1) # rest else (k', v) # counter_add k rest)"

definition Counter :: "'k list \<Rightarrow> ('k \<times> int) list" where
  "Counter xs = foldl (\<lambda>c k. counter_add k c) [] xs"

definition prune :: "int \<Rightarrow> ('k \<times> int) list \<Rightarrow> ('k \<times> int) list" where
  "prune t container = filter (\<lambda>(k, v). v > t) container"

text \<open>
  A coordinate-format matrix is three parallel arrays under a shape and an element type;
  the constructor rejects arrays of different lengths and an index outside the shape.
  Converting it to compressed rows sums the entries that share a coordinate. The stored
  cells are kept here as a dictionary from coordinate to value; the order of the cells in
  memory is not modelled. A stored value stands for its conversion to the element type.
\<close>

datatype dtype = Int64 | Float64 | Float32

record 'v coo =
  coo_shape :: "nat \<times> nat"
  coo_dtype :: dtype
  coo_row :: "nat list"
  coo_col :: "nat list"
  coo_data :: "'v list"

record 'v csr =
  shape :: "nat \<times> nat"
  dtype :: dtype
  cells :: "((nat \<times> nat) \<times> 'v) list"

definition coo_matrix :: "'v list \<Rightarrow> nat list \<Rightarrow> nat list \<Rightarrow> nat \<times> nat \<Rightarrow> dtype \<Rightarrow> error + 'v coo" where
  "coo_matrix data row col shp dt =
     (if length row \<noteq> length data \<or> length col \<noteq> length data then Inl ValueError
      else if list_ex (\<lambda>i. fst shp \<le> i) row \<or> list_ex (\<lambda>j. snd shp \<le> j) col then Inl ValueError
      else Inr \<lparr>coo_shape = shp, coo_dtype = dt, coo_row = row, coo_col = col, coo_data = data\<rparr>)"

fun add_cell :: "nat \<times> nat \<Rightarrow> 'v::plus \<Rightarrow> ((nat \<times> nat) \<times> 'v) list \<Rightarrow> ((nat \<times> nat) \<times> 'v) list" where
  "add_cell k v [] = [(k, v)]"
| "add_cell k v ((k', v') # rest) =
     (if k = k' then (k', v' + v) # rest else (k', v') # add_cell k v rest)"

definition csr_matrix :: "('v::plus) coo \<Rightarrow> 'v csr" where
  "csr_matrix m =
     \<lparr>shape = coo_shape m, dtype = coo_dtype m,
      cells = foldl (\<lambda>c (k, v). add_cell k v c) [] (zip (zip (coo_row m) (coo_col m)) (coo_data m))\<rparr>"

definition entry :: "('v::zero) csr \<Rightarrow> nat \<Rightarrow> nat \<Rightarrow> 'v" where
  "entry m i j = (case map_of (cells m) (i, j) of None \<Rightarrow> 0 | Some v \<Rightarrow> v)"

definition nnz :: "'v csr \<Rightarrow> nat" where
  "nnz m = length (cells m)"

section \<open>DeepWalker.do_processing and the constructor\<close>

text \<open>
  The loop that appends \<open>processor(walk)\<close> for every walk stops at the first walk on
  which \<open>processor\<close> raises, as a comprehension does. The function returns the two
  attributes it sets: the pruned container and the matrix \<open>A\<close>. The counts are stored
  as integers; their conversion to the 32-bit float maps equal counts to equal values.
\<close>

definition do_processing ::
  "args \<Rightarrow> nat \<times> nat \<Rightarrow> walk list \<Rightarrow> error + ((pair \<times> int) list \<times> int csr)" where
  "do_processing a shp walks =
     (case comprehension (processor a) walks of
        Inl e \<Rightarrow> Inl e
      | Inr container \<Rightarrow>
          (let counted = Counter (concat container);
               pruned = prune (pruning_threshold a) counted;
               index_1 = map (\<lambda>(x, v). fst x) pruned;
               index_2 = map (\<lambda>(x, v). snd x) pruned;
               scores = map (\<lambda>(k, v). v) pruned
           in case coo_matrix scores index_1 index_2 shp Float32 of
                Inl e \<Rightarrow> Inl e
              | Inr m \<Rightarrow> Inr (pruned, csr_matrix m)))"

text \<open>
  The object that \<open>__init__\<close> leaves behind, from the options, the rows of the edge
  list file and the state of the random generator; the new state of the generator is
  returned with it.
\<close>

record deepwalker =
  dw_args :: args
  dw_graph :: graph
  dw_shape :: "nat \<times> nat"
  dw_walks :: "walk list"
  dw_container :: "(pair \<times> int) list"
  dw_A :: "int csr"

definition DeepWalker :: "args \<Rightarrow> (node \<times> node) list \<Rightarrow> rng \<Rightarrow> error + (deepwalker \<times> rng)" where
  "DeepWalker a edges r =
     (let g = from_edgelist edges;
          shp = (length (graph_nodes g), length (graph_nodes g))
      in case do_walks a g r of
           Inl e \<Rightarrow> Inl e
         | Inr (walks, r') \<Rightarrow>
             (case do_processing a shp walks of
                Inl e \<Rightarrow> Inl e
              | Inr (container, A) \<Rightarrow>
                  Inr (\<lparr>dw_args = a, dw_graph = g, dw_shape = shp, dw_walks = walks,
                        dw_container = container, dw_A = A\<rparr>, r')))"

section \<open>Python floats\<close>

text \<open>
  A Python float is a binary64 number; the finite ones are rational numbers, and they
  compare as the rationals they are. An arithmetic result is the exact result rounded to
  the nearest number of the format, a tie going to the even significand: \<open>round_to p emin\<close>
  rounds to \<open>p\<close> significant bits with the unit in the last place at least \<open>2 ^ emin\<close>
  (gradual underflow). The format binary64 is \<open>p = 53\<close>, \<open>emin = -1074\<close>; binary32, the
  32-bit float, is \<open>p = 24\<close>, \<open>emin = -149\<close>. Infinities and NaN are not modelled: a sum
  beyond the largest finite float stays the finite rational here.
\<close>

function bit_length :: "int \<Rightarrow> int" where
  "bit_length n = (if n \<le> 0 then 0 else 1 + bit_length (n div 2))"
  by pat_completeness auto
termination
  by (relation "measure nat") auto

declare bit_length.simps [simp del]

definition pow2 :: "int \<Rightarrow> rat" where
  "pow2 e = (if 0 \<le> e then 2 ^ nat e else 1 / 2 ^ nat (- e))"

definition round_half_even :: "rat \<Rightarrow> int" where
  "round_half_even x =
     (let f = \<lfloor>x\<rfloor>; d = x - of_int f
      in if d < 1 / 2 then f else if 1 / 2 < d then f + 1 else if even f then f else f + 1)"

definition ulp_exponent :: "nat \<Rightarrow> int \<Rightarrow> rat \<Rightarrow> int" where
  "ulp_exponent p emin x =
     (case quotient_of \<bar>x\<bar> of (n, d) \<Rightarrow>
        let k = bit_length n - bit_length d;
            lg = (if pow2 k \<le> \<bar>x\<bar> then k else k - 1)
        in max emin (lg - (int p - 1)))"

definition round_to :: "nat \<Rightarrow> int \<Rightarrow> rat \<Rightarrow> rat" where
  "round_to p emin x =
     (if x = 0 then 0
      else let e = ulp_exponent p emin x in of_int (round_half_even (x / pow2 e)) * pow2 e)"


section \<open>sampling\<close>




section \<open>read_matrix\<close>

text \<open>
  The 32-bit floats of the matrix: the finite ones, as the rationals they are, with the
  rounding addition of the format. Building an array of 32-bit floats from Python
  integers takes each through a Python float first.
\<close>

datatype f32 = F32 rat

instantiation f32 :: "{zero, plus}"
begin

definition zero_f32 :: f32 where
  "zero_f32 = F32 0"

definition plus_f32 :: "f32 \<Rightarrow> f32 \<Rightarrow> f32" where
  "plus_f32 a b = (case a of F32 x \<Rightarrow> (case b of F32 y \<Rightarrow> F32 (round_to 24 (- 149) (x + y))))"

instance ..

end






section \<open>Notions used to state the properties\<close>

text \<open>
  For an offset \<open>k\<close>, the specification pairs every position \<open>i\<close> below \<open>len(walk) - k\<close>
  with position \<open>i + k\<close>: first all forward pairs, then all reversed pairs.
\<close>

definition spec_offset_pairs :: "walk \<Rightarrow> nat \<Rightarrow> pair list" where
  "spec_offset_pairs walk k =
     map (\<lambda>i. (walk ! i, walk ! (i + k))) [0..<length walk - k] @
     map (\<lambda>i. (walk ! (i + k), walk ! i)) [0..<length walk - k]"

text \<open>
  A list of pairs splits into a list and its mirror image when every pair occurs in it as
  often as the pair and its reverse occur together in one half.
\<close>

definition mirrored :: "pair list \<Rightarrow> pair list \<Rightarrow> bool" where
  "mirrored ps half \<longleftrightarrow> (\<forall>p. count_list ps p = count_list half p + count_list half (prod.swap p))"

text \<open>
  The edge test of the graph store, and what a walk needs of a graph: every listed
  neighbour is itself a node.
\<close>

definition has_edge :: "graph \<Rightarrow> node \<Rightarrow> node \<Rightarrow> bool" where
  "has_edge g u v = (case map_of g u of None \<Rightarrow> False | Some ns \<Rightarrow> v \<in> set ns)"

definition closed_graph :: "graph \<Rightarrow> bool" where
  "closed_graph g = list_all (\<lambda>(n, ns). list_all (\<lambda>v. map_of g v \<noteq> None) ns) g"

section \<open>Properties of the pair extractor\<close>

lemma comprehension_Inr:
  "(\<And>x. x \<in> set xs \<Longrightarrow> f x = Inr (g x)) \<Longrightarrow> comprehension f xs = Inr (map g xs)"
  by (induction xs) auto

lemma pairs_enumerate_ok:
  assumes "length sources \<le> length nebs"
  shows "comprehension (\<lambda>(i, source). case getitem nebs i of Inl e \<Rightarrow> Inl e | Inr n \<Rightarrow> Inr (h source n))
           (enumerate 0 sources)
         = Inr (map (\<lambda>i. h (sources ! i) (nebs ! i)) [0..<length sources])"
proof -
  have "comprehension (\<lambda>(i, source). case getitem nebs i of Inl e \<Rightarrow> Inl e | Inr n \<Rightarrow> Inr (h source n))
           (enumerate 0 sources) = Inr (map (\<lambda>(i, source). h source (nebs ! i)) (enumerate 0 sources))"
    using assms by (intro comprehension_Inr) (auto simp: in_set_enumerate_eq getitem_def)
  also have "map (\<lambda>(i, source). h source (nebs ! i)) (enumerate 0 sources)
             = map (\<lambda>i. h (sources ! i) (nebs ! i)) [0..<length sources]"
    by (rule nth_equalityI) (auto simp: nth_enumerate_eq)
  finally show ?thesis .
qed

lemma pairs_enumerate_fail:
  assumes "sources \<noteq> []" "nebs = []"
  shows "comprehension (\<lambda>(i, source). case getitem nebs i of Inl e \<Rightarrow> Inl e | Inr n \<Rightarrow> Inr (h source n))
           (enumerate 0 sources) = Inl IndexError"
  using assms by (cases sources) (auto simp: getitem_def)

lemma offset_pairs_inside:
  assumes "0 \<le> omega" "omega \<le> int (length walk)"
  shows "offset_pairs walk omega = Inr (spec_offset_pairs walk (nat omega))"
proof -
  let ?k = "nat omega"
  have s: "slice_to walk (int (length walk) - omega) = take (length walk - ?k) walk"
    using assms by (simp add: slice_to_def slice_bound_def Let_def nat_diff_distrib')
  have n: "slice_from walk omega = drop ?k walk"
    using assms by (simp add: slice_from_def slice_bound_def Let_def)
  have len: "length (take (length walk - ?k) walk) \<le> length (drop ?k walk)" by simp
  show ?thesis
    unfolding offset_pairs_def Let_def s n forward_pairs_def reverse_pairs_def
      pairs_enumerate_ok [OF len] spec_offset_pairs_def
    by (simp add: add.commute)
qed

lemma offset_pairs_far:
  assumes "2 * int (length walk) \<le> omega"
  shows "offset_pairs walk omega = Inr []"
proof -
  have s: "slice_to walk (int (length walk) - omega) = []"
    using assms by (simp add: slice_to_def slice_bound_def Let_def)
  show ?thesis
    unfolding offset_pairs_def Let_def s forward_pairs_def reverse_pairs_def by simp
qed

lemma offset_pairs_between:
  assumes "int (length walk) < omega" "omega < 2 * int (length walk)"
  shows "offset_pairs walk omega = Inl IndexError"
proof -
  have s: "slice_to walk (int (length walk) - omega) \<noteq> []"
    using assms by (auto simp add: slice_to_def slice_bound_def Let_def)
  have n: "slice_from walk omega = []"
    using assms by (simp add: slice_from_def slice_bound_def Let_def)
  show ?thesis
    unfolding offset_pairs_def Let_def forward_pairs_def
    by (simp add: pairs_enumerate_fail [OF s n])
qed

lemma processor_loop_Inr:
  "(\<And>omega. omega \<in> set omegas \<Longrightarrow> offset_pairs walk omega = Inr (f omega)) \<Longrightarrow>
   processor_loop walk omegas pairs = Inr (pairs @ concat (map f omegas))"
  by (induction omegas arbitrary: pairs) auto

lemma processor_within:
  assumes "window_size a \<le> int (length walk)"
  shows "processor a walk =
         Inr (concat (map (\<lambda>omega. spec_offset_pairs walk (nat omega)) [1 .. window_size a]))"
  unfolding processor_def
  using assms by (subst processor_loop_Inr [where f = "\<lambda>omega. spec_offset_pairs walk (nat omega)"])
    (auto intro: offset_pairs_inside)

lemma offset_pairs_singleton:
  assumes "1 \<le> omega"
  shows "offset_pairs [v] omega = Inr []"
proof (cases "omega = 1")
  case True
  then show ?thesis
    using offset_pairs_inside [of 1 "[v]"] by (simp add: spec_offset_pairs_def)
next
  case False
  with assms show ?thesis by (intro offset_pairs_far) simp
qed

lemma processor_singleton: "processor a [v] = Inr []"
  unfolding processor_def
  by (subst processor_loop_Inr [where f = "\<lambda>omega. []"]) (auto intro: offset_pairs_singleton)

text \<open>
  Claim C5. For an offset \<open>omega\<close> from 1 up to the window size that is below the length
  of the walk, the round of \<open>processor\<close> for that offset returns exactly the pairs
  \<open>(walk[i], walk[i + omega])\<close> for every position \<open>i\<close> below \<open>len(walk) - omega\<close>
  followed by their reverses, as a list (so with multiplicity, nothing deduplicated);
  when the window size does not exceed the length of the walk, \<open>processor\<close> returns
  the concatenation of these lists over the offsets 1 to the window size; and for a
  walk of one node it returns the empty list whatever the window size.
\<close>

theorem processor_emits_window_pairs:
  "(1 \<le> omega \<and> omega < int (length walk) \<longrightarrow>
      offset_pairs walk omega = Inr (spec_offset_pairs walk (nat omega))) \<and>
   (window_size a \<le> int (length walk) \<longrightarrow>
      processor a walk =
      Inr (concat (map (\<lambda>omega. spec_offset_pairs walk (nat omega)) [1 .. window_size a]))) \<and>
   processor a [v] = Inr []"
  using offset_pairs_inside [of omega walk] processor_within [of a walk] processor_singleton [of a v]
  by simp

theorem processor_emits_window_pairs_witness:
  "offset_pairs [5, 6, 7] 2 = Inr [(5, 7), (7, 5)] \<and>
   processor \<lparr>walk_length = 3, number_of_walks = 1, window_size = 2, pruning_threshold = 0\<rparr> [5, 6, 6] =
     Inr [(5, 6), (6, 6), (6, 5), (6, 6), (5, 6), (6, 5)] \<and>
   processor \<lparr>walk_length = 3, number_of_walks = 1, window_size = 2, pruning_threshold = 0\<rparr> [9] = Inr []"
  using processor_emits_window_pairs [of 2 "[5, 6, 7]"
      "\<lparr>walk_length = 3, number_of_walks = 1, window_size = 2, pruning_threshold = 0\<rparr>" 9]
    processor_emits_window_pairs [of 2 "[5, 6, 6]"
      "\<lparr>walk_length = 3, number_of_walks = 1, window_size = 2, pruning_threshold = 0\<rparr>" 9]
  by (simp add: spec_offset_pairs_def upto.simps upt_rec)

text \<open>
  Claim C1. An offset at or past the end of the walk is meant to give two empty slices and
  no pairs. For an offset strictly between \<open>len(walk)\<close> and \<open>2 * len(walk)\<close> the end
  bound \<open>len(walk) - omega\<close> of the first slice is negative and Python counts it from the
  end of the walk, so \<open>sources\<close> is not empty while \<open>nebs\<close> is, and \<open>nebs[0]\<close> raises
  (lemma \<open>offset_pairs_between\<close>; lemmas \<open>offset_pairs_inside\<close> and \<open>offset_pairs_far\<close>
  cover the offsets where the round does return the empty list). At the walk \<open>[0, 1]\<close>
  and offset 3, the default window size, the round and with it \<open>processor\<close> raise
  IndexError.
\<close>

theorem processor_raises_past_walk_end:
  "offset_pairs [0, 1] 3 = Inl IndexError \<and>
   processor \<lparr>walk_length = 2, number_of_walks = 10, window_size = 3, pruning_threshold = 10\<rparr> [0, 1]
     = Inl IndexError"
  by (simp add: processor_def upto.simps offset_pairs_def slice_to_def slice_from_def slice_bound_def
      forward_pairs_def reverse_pairs_def getitem_def)

section \<open>Counting, pruning and assembling\<close>

lemma keys_counter_add: "map fst (counter_add k c) = (if k \<in> fst ` set c then map fst c else map fst c @ [k])"
  by (induction c) (auto split: if_splits)

lemma distinct_counter_add: "distinct (map fst c) \<Longrightarrow> distinct (map fst (counter_add k c))"
  by (simp add: keys_counter_add)

lemma map_of_counter_add:
  "map_of (counter_add k c) k' =
     (if k' = k then Some (case map_of c k of None \<Rightarrow> 1 | Some v \<Rightarrow> v + 1) else map_of c k')"
  by (induction c) auto

lemma Counter_snoc: "Counter (xs @ [x]) = counter_add x (Counter xs)"
  by (simp add: Counter_def)

lemma distinct_Counter: "distinct (map fst (Counter xs))"
  by (induction xs rule: rev_induct) (simp_all add: Counter_snoc distinct_counter_add, simp add: Counter_def)

lemma map_of_Counter:
  "map_of (Counter xs) k = (if k \<in> set xs then Some (int (count_list xs k)) else None)"
proof (induction xs rule: rev_induct)
  case Nil
  then show ?case by (simp add: Counter_def)
next
  case (snoc x xs)
  then show ?case by (auto simp: Counter_snoc map_of_counter_add)
qed

lemma Counter_items:
  "(k, v) \<in> set (Counter xs) \<longleftrightarrow> k \<in> set xs \<and> v = int (count_list xs k)"
proof -
  have "(k, v) \<in> set (Counter xs) \<longleftrightarrow> map_of (Counter xs) k = Some v"
    by (simp add: map_of_eq_Some_iff [OF distinct_Counter])
  then show ?thesis by (auto simp: map_of_Counter)
qed

lemma prune_items: "(k, v) \<in> set (prune t c) \<longleftrightarrow> (k, v) \<in> set c \<and> t < v"
  by (auto simp: prune_def)

lemma distinct_prune: "distinct (map fst c) \<Longrightarrow> distinct (map fst (prune t c))"
  by (simp add: prune_def distinct_map_filter)

lemma prune_prune: "t1 \<le> t2 \<Longrightarrow> prune t2 (prune t1 c) = prune t2 c"
  unfolding prune_def filter_filter by (rule filter_cong) auto

lemma length_prune_le: "length (prune t c) \<le> length c"
  by (simp add: prune_def)

text \<open>Cells with distinct coordinates are stored as they come.\<close>

lemma add_cell_fresh: "k \<notin> fst ` set c \<Longrightarrow> add_cell k v c = c @ [(k, v)]"
  by (induction c) auto

lemma foldl_add_cell_distinct:
  "distinct (map fst (c @ kvs)) \<Longrightarrow> foldl (\<lambda>c (k, v). add_cell k v c) c kvs = c @ kvs"
proof (induction kvs arbitrary: c)
  case Nil
  then show ?case by simp
next
  case (Cons kv kvs)
  obtain k v where kv: "kv = (k, v)" by (cases kv)
  from Cons.prems have fresh: "k \<notin> fst ` set c" by (auto simp: kv)
  from Cons.prems have "distinct (map fst ((c @ [(k, v)]) @ kvs))" by (simp add: kv)
  from Cons.IH [OF this] show ?case by (simp add: kv add_cell_fresh [OF fresh])
qed

lemma zip_coordinates: "zip (zip (map (\<lambda>(x, v). fst x) c) (map (\<lambda>(x, v). snd x) c)) (map (\<lambda>(k, v). v) c) = c"
  by (induction c) auto

lemma coo_matrix_Inr:
  "coo_matrix data row col shp dt = Inr m \<longleftrightarrow>
     length row = length data \<and> length col = length data \<and>
     (\<forall>i \<in> set row. i < fst shp) \<and> (\<forall>j \<in> set col. j < snd shp) \<and>
     m = \<lparr>coo_shape = shp, coo_dtype = dt, coo_row = row, coo_col = col, coo_data = data\<rparr>"
proof -
  have "list_ex (\<lambda>i. fst shp \<le> i) row \<longleftrightarrow> \<not> (\<forall>i \<in> set row. i < fst shp)"
    by (auto simp: list_ex_iff not_le not_less)
  moreover have "list_ex (\<lambda>j. snd shp \<le> j) col \<longleftrightarrow> \<not> (\<forall>j \<in> set col. j < snd shp)"
    by (auto simp: list_ex_iff not_le not_less)
  ultimately show ?thesis
    unfolding coo_matrix_def by (cases "length row = length data"; cases "length col = length data") auto
qed

lemma do_processing_Inr:
  assumes "do_processing a shp walks = Inr (pruned, A)"
  obtains container where
    "comprehension (processor a) walks = Inr container"
    "pruned = prune (pruning_threshold a) (Counter (concat container))"
    "A = \<lparr>shape = shp, dtype = Float32, cells = pruned\<rparr>"
    "\<forall>x \<in> set pruned. fst (fst x) < fst shp \<and> snd (fst x) < snd shp"
proof -
  from assms obtain container where c: "comprehension (processor a) walks = Inr container"
    by (auto simp: do_processing_def split: sum.splits)
  define p where "p = prune (pruning_threshold a) (Counter (concat container))"
  from assms c obtain m where m: "coo_matrix (map (\<lambda>(k, v). v) p) (map (\<lambda>(x, v). fst x) p) (map (\<lambda>(x, v). snd x) p) shp Float32 = Inr m"
    and res: "pruned = p" "A = csr_matrix m"
    by (auto simp: do_processing_def Let_def p_def split: sum.splits)
  have d: "distinct (map fst p)"
    unfolding p_def by (intro distinct_prune distinct_Counter)
  from m have mm: "m = \<lparr>coo_shape = shp, coo_dtype = Float32, coo_row = map (\<lambda>(x, v). fst x) p,
       coo_col = map (\<lambda>(x, v). snd x) p, coo_data = map (\<lambda>(k, v). v) p\<rparr>"
    and bounds: "\<forall>i \<in> set (map (\<lambda>(x, v). fst x) p). i < fst shp" "\<forall>j \<in> set (map (\<lambda>(x, v). snd x) p). j < snd shp"
    by (simp_all add: coo_matrix_Inr)
  have "A = \<lparr>shape = shp, dtype = Float32, cells = p\<rparr>"
    using foldl_add_cell_distinct [of "[]" p] d
    by (simp add: res csr_matrix_def mm zip_coordinates)
  moreover have "\<forall>x \<in> set p. fst (fst x) < fst shp \<and> snd (fst x) < snd shp"
    using bounds by force
  ultimately show ?thesis
    using that [OF c] res p_def by blast
qed

lemma entry_cells:
  assumes "distinct (map fst (cells m))"
  shows "entry m i j = v \<longleftrightarrow> ((i, j), v) \<in> set (cells m) \<or> ((i, j) \<notin> fst ` set (cells m) \<and> v = 0)"
proof -
  have "((i, j), v) \<in> set (cells m) \<longleftrightarrow> map_of (cells m) (i, j) = Some v"
    by (simp add: map_of_eq_Some_iff [OF assms])
  moreover have "(i, j) \<notin> fst ` set (cells m) \<longleftrightarrow> map_of (cells m) (i, j) = None"
    by (simp add: map_of_eq_None_iff)
  ultimately show ?thesis
    by (cases "map_of (cells m) (i, j)") (auto simp: entry_def)
qed

section \<open>The pipeline: pruning\<close>

lemma walks_from_walk_length:
  "walk_length a' = walk_length a \<Longrightarrow> walks_from a' g ns walks r = walks_from a g ns walks r"
  by (induction ns arbitrary: walks r) (auto simp: do_a_walk_def split: sum.splits)

lemma do_walks_loop_walk_length:
  "walk_length a' = walk_length a \<Longrightarrow> do_walks_loop a' g k walks r = do_walks_loop a g k walks r"
  by (induction k arbitrary: walks r) (auto simp: walks_from_walk_length [of a' a] split: sum.splits)

lemma do_walks_same_corpus:
  "walk_length a' = walk_length a \<Longrightarrow> number_of_walks a' = number_of_walks a \<Longrightarrow>
   do_walks a' g r = do_walks a g r"
  by (simp add: do_walks_def do_walks_loop_walk_length [of a' a])

lemma processor_window_size: "window_size a' = window_size a \<Longrightarrow> processor a' = processor a"
  by (rule ext) (simp add: processor_def)

lemma DeepWalker_Inr:
  assumes "DeepWalker a edges r = Inr (dw, r')"
  shows "do_walks a (from_edgelist edges) r = Inr (dw_walks dw, r')"
    and "do_processing a (dw_shape dw) (dw_walks dw) = Inr (dw_container dw, dw_A dw)"
    and "dw_shape dw = (length (graph_nodes (from_edgelist edges)), length (graph_nodes (from_edgelist edges)))"
    and "dw_graph dw = from_edgelist edges"
    and "dw_args dw = a"
  using assms by (auto simp: DeepWalker_def Let_def split: sum.splits prod.splits)

lemma DeepWalker_returns:
  assumes "do_walks a (from_edgelist edges) r = Inr (walks, r')"
    and "do_processing a (length (graph_nodes (from_edgelist edges)), length (graph_nodes (from_edgelist edges))) walks
         = Inr (pruned, A)"
  shows "\<exists>dw. DeepWalker a edges r = Inr (dw, r') \<and> dw_walks dw = walks \<and> dw_container dw = pruned \<and> dw_A dw = A"
  using assms by (simp add: DeepWalker_def Let_def)

lemma do_processing_items:
  assumes "comprehension (processor a) walks = Inr container"
    and "do_processing a shp walks = Inr (pruned, A)"
  shows "(k, v) \<in> set pruned \<longleftrightarrow>
         k \<in> set (concat container) \<and> v = int (count_list (concat container) k) \<and> pruning_threshold a < v"
proof -
  from assms(2) obtain container' where "comprehension (processor a) walks = Inr container'"
    and "pruned = prune (pruning_threshold a) (Counter (concat container'))"
    by (rule do_processing_Inr)
  with assms(1) have p: "pruned = prune (pruning_threshold a) (Counter (concat container))"
    by simp
  show ?thesis
    unfolding p prune_items Counter_items by blast
qed

lemma do_processing_keys:
  assumes "comprehension (processor a) walks = Inr container"
    and "do_processing a shp walks = Inr (pruned, A)"
  shows "k \<in> fst ` set pruned \<longleftrightarrow>
         k \<in> set (concat container) \<and> pruning_threshold a < int (count_list (concat container) k)"
proof -
  have "k \<in> fst ` set pruned \<longleftrightarrow> (\<exists>v. (k, v) \<in> set pruned)" by force
  then show ?thesis unfolding do_processing_items [OF assms] by blast
qed

lemma do_processing_cells:
  assumes "do_processing a shp walks = Inr (pruned, A)"
  shows "cells A = pruned" and "shape A = shp" and "dtype A = Float32" and "distinct (map fst (cells A))"
proof -
  from assms obtain container where "pruned = prune (pruning_threshold a) (Counter (concat container))"
    and A: "A = \<lparr>shape = shp, dtype = Float32, cells = pruned\<rparr>"
    by (rule do_processing_Inr)
  then show "cells A = pruned" "shape A = shp" "dtype A = Float32" "distinct (map fst (cells A))"
    by (simp_all add: distinct_prune distinct_Counter)
qed

lemma do_processing_entry:
  assumes "comprehension (processor a) walks = Inr container"
    and "do_processing a shp walks = Inr (pruned, A)"
  shows "entry A i j =
         (if pruning_threshold a < int (count_list (concat container) (i, j))
          then int (count_list (concat container) (i, j)) else 0)"
proof -
  let ?s = "concat container"
  note d = do_processing_cells(4) [OF assms(2)]
  note stored = do_processing_cells(1) [OF assms(2)]
  show ?thesis
  proof (cases "pruning_threshold a < int (count_list ?s (i, j)) \<and> (i, j) \<in> set ?s")
    case True
    then have "((i, j), int (count_list ?s (i, j))) \<in> set (cells A)"
      unfolding stored do_processing_items [OF assms] by simp
    with True show ?thesis by (simp add: entry_cells [OF d])
  next
    case False
    then have "(i, j) \<notin> fst ` set (cells A)"
      unfolding stored do_processing_keys [OF assms] by blast
    then have "entry A i j = 0" by (simp add: entry_cells [OF d])
    with False show ?thesis by (auto simp: count_list_0_iff)
  qed
qed



lemma do_processing_value:
  assumes "comprehension (processor a) walks = Inr container"
  shows "do_processing a shp walks =
     (let pruned = prune (pruning_threshold a) (Counter (concat container))
      in if \<forall>x \<in> set pruned. fst (fst x) < fst shp \<and> snd (fst x) < snd shp
         then Inr (pruned, \<lparr>shape = shp, dtype = Float32, cells = pruned\<rparr>)
         else Inl ValueError)"
proof -
  define p where "p = prune (pruning_threshold a) (Counter (concat container))"
  have unfolded: "do_processing a shp walks =
     (case coo_matrix (map (\<lambda>(k, v). v) p) (map (\<lambda>(x, v). fst x) p) (map (\<lambda>(x, v). snd x) p) shp Float32 of
        Inl e \<Rightarrow> Inl e | Inr m \<Rightarrow> Inr (p, csr_matrix m))"
    unfolding p_def using assms by (simp add: do_processing_def Let_def)
  show ?thesis
  proof (cases "\<forall>x \<in> set p. fst (fst x) < fst shp \<and> snd (fst x) < snd shp")
    case True
    then have "\<exists>m. coo_matrix (map (\<lambda>(k, v). v) p) (map (\<lambda>(x, v). fst x) p) (map (\<lambda>(x, v). snd x) p) shp Float32 = Inr m"
      by (fastforce simp: coo_matrix_Inr)
    then obtain A where dp: "do_processing a shp walks = Inr (p, A)"
      by (auto simp: unfolded)
    from dp obtain container' where "comprehension (processor a) walks = Inr container'"
      "A = \<lparr>shape = shp, dtype = Float32, cells = p\<rparr>"
      by (rule do_processing_Inr)
    with dp True show ?thesis
      unfolding Let_def p_def [symmetric] by simp
  next
    case False
    then have "\<not> ((\<forall>i \<in> set (map (\<lambda>(x, v). fst x) p). i < fst shp) \<and>
                (\<forall>j \<in> set (map (\<lambda>(x, v). snd x) p). j < snd shp))"
      by (auto simp: case_prod_beta)
    then have "coo_matrix (map (\<lambda>(k, v). v) p) (map (\<lambda>(x, v). fst x) p) (map (\<lambda>(x, v). snd x) p) shp Float32
               = Inl ValueError"
      using coo_matrix_Inr [of "map (\<lambda>(k, v). v) p" "map (\<lambda>(x, v). fst x) p" "map (\<lambda>(x, v). snd x) p" shp Float32]
      by (cases "coo_matrix (map (\<lambda>(k, v). v) p) (map (\<lambda>(x, v). fst x) p) (map (\<lambda>(x, v). snd x) p) shp Float32")
         (auto simp: coo_matrix_def split: if_splits)
    with False show ?thesis
      unfolding Let_def p_def [symmetric] by (simp add: unfolded)
  qed
qed

text \<open>
  Claim C6. With the graph, the walks and the random draws fixed, a run at a higher
  pruning threshold also returns, on the same walk corpus; the cells it stores are among
  the cells stored at the lower threshold, so it stores at most as many entries. Every
  stored value is a positive count, so the stored entries are the non-zero entries.
\<close>

theorem raising_threshold_prunes_more:
  assumes "DeepWalker a edges r = Inr (dw1, r1)"
    and "pruning_threshold a < t2"
  shows "\<exists>dw2 r2. DeepWalker (a\<lparr>pruning_threshold := t2\<rparr>) edges r = Inr (dw2, r2) \<and>
           dw_walks dw2 = dw_walks dw1 \<and>
           set (cells (dw_A dw2)) \<subseteq> set (cells (dw_A dw1)) \<and>
           nnz (dw_A dw2) \<le> nnz (dw_A dw1) \<and>
           (\<forall>c \<in> set (cells (dw_A dw1)). 0 < snd c)"
proof -
  let ?g = "from_edgelist edges"
  let ?a2 = "a\<lparr>pruning_threshold := t2\<rparr>"
  let ?shp = "(length (graph_nodes ?g), length (graph_nodes ?g))"
  note run1 = DeepWalker_Inr [OF assms(1)]
  from run1(2) obtain container where c: "comprehension (processor a) (dw_walks dw1) = Inr container"
    and p1: "dw_container dw1 = prune (pruning_threshold a) (Counter (concat container))"
    and A1: "dw_A dw1 = \<lparr>shape = dw_shape dw1, dtype = Float32, cells = dw_container dw1\<rparr>"
    and b1: "\<forall>x \<in> set (dw_container dw1). fst (fst x) < fst (dw_shape dw1) \<and> snd (fst x) < snd (dw_shape dw1)"
    by (rule do_processing_Inr)
  define p2 where "p2 = prune t2 (Counter (concat container))"
  have p21: "p2 = prune t2 (dw_container dw1)"
    using assms(2) by (simp add: p2_def p1 prune_prune)
  then have sub: "set p2 \<subseteq> set (dw_container dw1)" and len: "length p2 \<le> length (dw_container dw1)"
    by (auto simp: prune_items length_prune_le)
  have walks2: "do_walks ?a2 ?g r = Inr (dw_walks dw1, r1)"
    using run1(1) by (simp add: do_walks_same_corpus [of ?a2 a])
  have c2: "comprehension (processor ?a2) (dw_walks dw1) = Inr container"
    using c by (simp add: processor_window_size [of ?a2 a])
  have b2: "\<forall>x \<in> set p2. fst (fst x) < fst ?shp \<and> snd (fst x) < snd ?shp"
    using b1 sub unfolding run1(3) by blast
  have "do_processing ?a2 ?shp (dw_walks dw1) = Inr (p2, \<lparr>shape = ?shp, dtype = Float32, cells = p2\<rparr>)"
    using b2 unfolding do_processing_value [OF c2] Let_def by (simp add: p2_def)
  from DeepWalker_returns [OF walks2 this] obtain dw2
    where "DeepWalker ?a2 edges r = Inr (dw2, r1)" "dw_walks dw2 = dw_walks dw1"
      "dw_A dw2 = \<lparr>shape = ?shp, dtype = Float32, cells = p2\<rparr>"
    by blast
  moreover have "\<forall>c \<in> set (cells (dw_A dw1)). 0 < snd c"
  proof
    fix c assume "c \<in> set (cells (dw_A dw1))"
    then have "(fst c, snd c) \<in> set (dw_container dw1)" by (simp add: A1)
    then have "fst c \<in> set (concat container)" "snd c = int (count_list (concat container) (fst c))"
      unfolding do_processing_items [OF c run1(2)] by simp_all
    then show "0 < snd c"
      using count_list_0_iff [of "concat container" "fst c"] by simp
  qed
  ultimately show ?thesis
    using sub len by (auto simp: A1 nnz_def)
qed

theorem raising_threshold_prunes_more_witness:
  "map_sum id (cells \<circ> dw_A \<circ> fst)
     (DeepWalker \<lparr>walk_length = 3, number_of_walks = 2, window_size = 2, pruning_threshold = 0\<rparr>
        [(0, 1), (1, 2), (2, 0)] (id, 0))
     = Inr [((0, 1), 4), ((1, 2), 8), ((1, 0), 4), ((2, 1), 8), ((0, 2), 4), ((2, 0), 4), ((2, 2), 4)] \<and>
   (0 :: int) < 4 \<and>
   map_sum id (cells \<circ> dw_A \<circ> fst)
     (DeepWalker \<lparr>walk_length = 3, number_of_walks = 2, window_size = 2, pruning_threshold = 4\<rparr>
        [(0, 1), (1, 2), (2, 0)] (id, 0))
     = Inr [((1, 2), 8), ((2, 1), 8)] \<and>
   (\<exists>dw1 dw2 r1 r2.
      DeepWalker \<lparr>walk_length = 3, number_of_walks = 2, window_size = 2, pruning_threshold = 0\<rparr>
        [(0, 1), (1, 2), (2, 0)] (id, 0) = Inr (dw1, r1) \<and>
      DeepWalker \<lparr>walk_length = 3, number_of_walks = 2, window_size = 2, pruning_threshold = 4\<rparr>
        [(0, 1), (1, 2), (2, 0)] (id, 0) = Inr (dw2, r2) \<and>
      nnz (dw_A dw2) \<le> nnz (dw_A dw1))"
proof -
  let ?a = "\<lparr>walk_length = 3, number_of_walks = 2, window_size = 2, pruning_threshold = 0\<rparr>"
  let ?e = "[(0 :: nat, 1 :: nat), (1, 2), (2, 0)]"
  have v1: "map_sum id (cells \<circ> dw_A \<circ> fst) (DeepWalker ?a ?e (id, 0))
     = Inr [((0, 1), 4), ((1, 2), 8), ((1, 0), 4), ((2, 1), 8), ((0, 2), 4), ((2, 0), 4), ((2, 2), 4)]"
    by code_simp
  have v2: "map_sum id (cells \<circ> dw_A \<circ> fst) (DeepWalker (?a\<lparr>pruning_threshold := 4\<rparr>) ?e (id, 0))
     = Inr [((1, 2), 8), ((2, 1), 8)]"
    by code_simp
  from v1 obtain dw1 r1 where run1: "DeepWalker ?a ?e (id, 0) = Inr (dw1, r1)"
    by (cases "DeepWalker ?a ?e (id, 0)") auto
  have lt: "pruning_threshold ?a < 4" by simp
  from raising_threshold_prunes_more [OF run1 lt] obtain dw2 r2
    where "DeepWalker (?a\<lparr>pruning_threshold := 4\<rparr>) ?e (id, 0) = Inr (dw2, r2)"
      "nnz (dw_A dw2) \<le> nnz (dw_A dw1)"
    by blast
  with run1 have "\<exists>dw1 dw2 r1 r2. DeepWalker ?a ?e (id, 0) = Inr (dw1, r1) \<and>
      DeepWalker (?a\<lparr>pruning_threshold := 4\<rparr>) ?e (id, 0) = Inr (dw2, r2) \<and>
      nnz (dw_A dw2) \<le> nnz (dw_A dw1)"
    by blast
  with v1 v2 show ?thesis by simp
qed

section \<open>The pipeline: symmetry and the diagonal\<close>

lemma count_list_swap: "count_list (map prod.swap ps) p = count_list ps (prod.swap p)"
  using count_list_map_conv [of prod.swap ps "prod.swap p"] by simp

lemma mirrored_Nil: "mirrored [] []"
  by (simp add: mirrored_def)

lemma mirrored_append: "mirrored ps h \<Longrightarrow> mirrored qs k \<Longrightarrow> mirrored (ps @ qs) (h @ k)"
  by (simp add: mirrored_def)

lemma mirrored_halves: "mirrored (fw @ map prod.swap fw) fw"
  by (simp add: mirrored_def count_list_swap)

lemma mirrored_symmetric: "mirrored ps h \<Longrightarrow> count_list ps (i, j) = count_list ps (j, i)"
  by (simp add: mirrored_def)

lemma mirrored_diagonal: "mirrored ps h \<Longrightarrow> even (count_list ps (n, n))"
  by (simp add: mirrored_def)

lemma comprehension_mapped:
  assumes "comprehension f xs = Inr ys"
    and "\<And>x. f' x = (case f x of Inl e \<Rightarrow> Inl e | Inr y \<Rightarrow> Inr (g y))"
  shows "comprehension f' xs = Inr (map g ys)"
  using assms(1)
proof (induction xs arbitrary: ys)
  case Nil
  then show ?case by simp
next
  case (Cons x xs)
  then show ?case by (auto simp: assms(2) split: sum.splits)
qed

lemma reverse_pairs_of_forward:
  assumes "forward_pairs sources nebs = Inr fw"
  shows "reverse_pairs sources nebs = Inr (map prod.swap fw)"
  unfolding reverse_pairs_def
  by (rule comprehension_mapped [OF assms [unfolded forward_pairs_def]]) (auto split: sum.splits)

lemma offset_pairs_mirrored:
  assumes "offset_pairs walk omega = Inr ps"
  shows "\<exists>half. mirrored ps half"
proof -
  let ?sources = "slice_to walk (int (length walk) - omega)"
  let ?nebs = "slice_from walk omega"
  from assms obtain fw where fw: "forward_pairs ?sources ?nebs = Inr fw"
    by (auto simp: offset_pairs_def Let_def split: sum.splits)
  with assms have "ps = fw @ map prod.swap fw"
    by (simp add: offset_pairs_def Let_def reverse_pairs_of_forward [OF fw])
  then show ?thesis using mirrored_halves by blast
qed

lemma processor_loop_mirrored:
  assumes "processor_loop walk omegas pairs = Inr ps" and "mirrored pairs h"
  shows "\<exists>half. mirrored ps half"
  using assms
proof (induction omegas arbitrary: pairs h)
  case Nil
  then show ?case by auto
next
  case (Cons omega omegas)
  from Cons.prems(1) obtain new where new: "offset_pairs walk omega = Inr new"
    and rest: "processor_loop walk omegas (pairs @ new) = Inr ps"
    by (auto split: sum.splits)
  from offset_pairs_mirrored [OF new] obtain k where "mirrored new k" ..
  with Cons.prems(2) have "mirrored (pairs @ new) (h @ k)" by (rule mirrored_append)
  with rest show ?case by (rule Cons.IH)
qed

lemma processor_mirrored:
  assumes "processor a walk = Inr ps"
  shows "\<exists>half. mirrored ps half"
  using assms mirrored_Nil unfolding processor_def by (rule processor_loop_mirrored)

lemma corpus_mirrored:
  assumes "comprehension (processor a) walks = Inr container"
  shows "\<exists>half. mirrored (concat container) half"
  using assms
proof (induction walks arbitrary: container)
  case Nil
  then show ?case using mirrored_Nil by auto
next
  case (Cons walk walks)
  from Cons.prems obtain ps rest where ps: "processor a walk = Inr ps"
    and rest: "comprehension (processor a) walks = Inr rest" and c: "container = ps # rest"
    by (auto split: sum.splits)
  from processor_mirrored [OF ps] obtain h where "mirrored ps h" ..
  moreover from Cons.IH [OF rest] obtain k where "mirrored (concat rest) k" ..
  ultimately have "mirrored (concat container) (h @ k)"
    unfolding c by (simp add: mirrored_append)
  then show ?case ..
qed

lemma do_processing_container:
  assumes "do_processing a shp walks = Inr (pruned, A)"
  obtains container where "comprehension (processor a) walks = Inr container"
  using assms by (auto simp: do_processing_def split: sum.splits)

text \<open>
  Claim C2. Whatever the edge list, the options and the random draws, when the constructor
  returns, the count of a pair over the stream of pairs of the whole corpus is the count
  of its reverse, a pair is kept by the pruning with a count exactly when its reverse is
  kept with that count, and the matrix has equal entries at \<open>(i, j)\<close> and \<open>(j, i)\<close>.
\<close>

theorem cooccurrence_matrix_symmetric:
  assumes "DeepWalker a edges r = Inr (dw, r')"
  shows "(\<forall>i j. entry (dw_A dw) i j = entry (dw_A dw) j i) \<and>
         (\<forall>i j v. ((i, j), v) \<in> set (dw_container dw) \<longleftrightarrow> ((j, i), v) \<in> set (dw_container dw)) \<and>
         (\<exists>container. comprehension (processor a) (dw_walks dw) = Inr container \<and>
            (\<forall>i j. count_list (concat container) (i, j) = count_list (concat container) (j, i)))"
proof -
  note dp = DeepWalker_Inr(2) [OF assms]
  from dp obtain container where c: "comprehension (processor a) (dw_walks dw) = Inr container"
    by (rule do_processing_container)
  from corpus_mirrored [OF c] obtain half where "mirrored (concat container) half" ..
  then have sym: "count_list (concat container) (i, j) = count_list (concat container) (j, i)" for i j
    by (rule mirrored_symmetric)
  have sym_in: "(i, j) \<in> set (concat container) \<longleftrightarrow> (j, i) \<in> set (concat container)" for i j
    by (metis sym count_list_0_iff)
  have "entry (dw_A dw) i j = entry (dw_A dw) j i" for i j
    unfolding do_processing_entry [OF c dp] sym [of i j] ..
  moreover have "((i, j), v) \<in> set (dw_container dw) \<longleftrightarrow> ((j, i), v) \<in> set (dw_container dw)" for i j v
    unfolding do_processing_items [OF c dp] sym [of i j] sym_in [of i j] ..
  ultimately show ?thesis using c sym by blast
qed

theorem cooccurrence_matrix_symmetric_witness:
  "map_sum id (cells \<circ> dw_A \<circ> fst)
     (DeepWalker \<lparr>walk_length = 3, number_of_walks = 2, window_size = 2, pruning_threshold = 0\<rparr>
        [(0, 1), (1, 2), (2, 0)] (id, 0))
     = Inr [((0, 1), 4), ((1, 2), 8), ((1, 0), 4), ((2, 1), 8), ((0, 2), 4), ((2, 0), 4), ((2, 2), 4)] \<and>
   (\<exists>dw r'. DeepWalker \<lparr>walk_length = 3, number_of_walks = 2, window_size = 2, pruning_threshold = 0\<rparr>
        [(0, 1), (1, 2), (2, 0)] (id, 0) = Inr (dw, r') \<and>
      entry (dw_A dw) 1 2 = entry (dw_A dw) 2 1 \<and> entry (dw_A dw) 1 2 = 8)"
proof -
  let ?a = "\<lparr>walk_length = 3, number_of_walks = 2, window_size = 2, pruning_threshold = 0\<rparr>"
  let ?e = "[(0 :: nat, 1 :: nat), (1, 2), (2, 0)]"
  have v: "map_sum id (cells \<circ> dw_A \<circ> fst) (DeepWalker ?a ?e (id, 0))
     = Inr [((0, 1), 4), ((1, 2), 8), ((1, 0), 4), ((2, 1), 8), ((0, 2), 4), ((2, 0), 4), ((2, 2), 4)]"
    by code_simp
  then obtain dw r' where run: "DeepWalker ?a ?e (id, 0) = Inr (dw, r')"
    and cs: "cells (dw_A dw) = [((0, 1), 4), ((1, 2), 8), ((1, 0), 4), ((2, 1), 8), ((0, 2), 4), ((2, 0), 4), ((2, 2), 4)]"
    by (cases "DeepWalker ?a ?e (id, 0)") auto
  from cooccurrence_matrix_symmetric [OF run] have "entry (dw_A dw) 1 2 = entry (dw_A dw) 2 1"
    by blast
  moreover have "entry (dw_A dw) 1 2 = 8"
    by (simp add: entry_def cs)
  ultimately show ?thesis using v run by blast
qed

text \<open>
  Claim C10. One round of \<open>processor\<close> emits every pair \<open>(n, n)\<close> an even number of times
  (the forward pair and its reverse are the same pair), so does \<open>processor\<close>, and so does
  the stream of pairs of the whole corpus; every count that the pruning keeps for a pair
  \<open>(n, n)\<close> and every diagonal entry of the matrix is therefore even.
\<close>

theorem diagonal_counts_even:
  "(offset_pairs walk omega = Inr new \<longrightarrow> even (count_list new (n, n))) \<and>
   (processor a walk = Inr ps \<longrightarrow> even (count_list ps (n, n))) \<and>
   (DeepWalker a edges r = Inr (dw, r') \<longrightarrow>
      even (entry (dw_A dw) n n) \<and>
      (\<forall>v. ((n, n), v) \<in> set (dw_container dw) \<longrightarrow> even v) \<and>
      (\<exists>container. comprehension (processor a) (dw_walks dw) = Inr container \<and>
         even (count_list (concat container) (n, n))))"
proof (intro conjI impI)
  assume "offset_pairs walk omega = Inr new"
  from offset_pairs_mirrored [OF this] show "even (count_list new (n, n))"
    using mirrored_diagonal by blast
next
  assume "processor a walk = Inr ps"
  from processor_mirrored [OF this] show "even (count_list ps (n, n))"
    using mirrored_diagonal by blast
next
  assume run: "DeepWalker a edges r = Inr (dw, r')"
  note dp = DeepWalker_Inr(2) [OF run]
  from dp obtain container where c: "comprehension (processor a) (dw_walks dw) = Inr container"
    by (rule do_processing_container)
  from corpus_mirrored [OF c] have ev: "even (count_list (concat container) (n, n))"
    using mirrored_diagonal by blast
  show "even (entry (dw_A dw) n n)"
    unfolding do_processing_entry [OF c dp] using ev by simp
  show "\<forall>v. ((n, n), v) \<in> set (dw_container dw) \<longrightarrow> even v"
    unfolding do_processing_items [OF c dp] using ev by simp
  show "\<exists>container. comprehension (processor a) (dw_walks dw) = Inr container \<and>
         even (count_list (concat container) (n, n))"
    using c ev by blast
qed

theorem diagonal_counts_even_witness:
  "offset_pairs [2, 2, 1] 1 = Inr [(2, 2), (2, 1), (2, 2), (1, 2)] \<and>
   even (count_list [(2 :: nat, 2 :: nat), (2, 1), (2, 2), (1, 2)] (2, 2)) \<and>
   map_sum id (cells \<circ> dw_A \<circ> fst)
     (DeepWalker \<lparr>walk_length = 3, number_of_walks = 2, window_size = 2, pruning_threshold = 0\<rparr>
        [(0, 1), (1, 2), (2, 0)] (id, 0))
     = Inr [((0, 1), 4), ((1, 2), 8), ((1, 0), 4), ((2, 1), 8), ((0, 2), 4), ((2, 0), 4), ((2, 2), 4)] \<and>
   (\<exists>dw r'. DeepWalker \<lparr>walk_length = 3, number_of_walks = 2, window_size = 2, pruning_threshold = 0\<rparr>
        [(0, 1), (1, 2), (2, 0)] (id, 0) = Inr (dw, r') \<and>
      even (entry (dw_A dw) 2 2) \<and> entry (dw_A dw) 2 2 = 4)"
proof -
  let ?a = "\<lparr>walk_length = 3, number_of_walks = 2, window_size = 2, pruning_threshold = 0\<rparr>"
  let ?e = "[(0 :: nat, 1 :: nat), (1, 2), (2, 0)]"
  have o: "offset_pairs [2, 2, 1] 1 = Inr [(2, 2), (2, 1), (2, 2), (1, 2)]"
    by code_simp
  have v: "map_sum id (cells \<circ> dw_A \<circ> fst) (DeepWalker ?a ?e (id, 0))
     = Inr [((0, 1), 4), ((1, 2), 8), ((1, 0), 4), ((2, 1), 8), ((0, 2), 4), ((2, 0), 4), ((2, 2), 4)]"
    by code_simp
  then obtain dw r' where run: "DeepWalker ?a ?e (id, 0) = Inr (dw, r')"
    and cs: "cells (dw_A dw) = [((0, 1), 4), ((1, 2), 8), ((1, 0), 4), ((2, 1), 8), ((0, 2), 4), ((2, 0), 4), ((2, 2), 4)]"
    by (cases "DeepWalker ?a ?e (id, 0)") auto
  note t = diagonal_counts_even [where walk = "[2, 2, 1]" and omega = 1
      and new = "[(2, 2), (2, 1), (2, 2), (1, 2)]" and n = 2 and a = ?a and edges = ?e and r = "(id, 0)"
      and dw = dw and r' = r']
  from t o have e1: "even (count_list [(2 :: nat, 2 :: nat), (2, 1), (2, 2), (1, 2)] (2, 2))"
    by blast
  from t run have e2: "even (entry (dw_A dw) 2 2)"
    by blast
  have e3: "entry (dw_A dw) 2 2 = 4"
    by (simp add: entry_def cs)
  from o e1 v run e2 e3 show ?thesis by blast
qed

section \<open>The graph store: nodes and edges\<close>

lemma graph_nodes_add_neighbor: "map fst (add_neighbor u v g) = map fst g"
  by (induction g) (auto simp: add_neighbor_def)

lemma map_of_add_neighbor:
  "map_of (add_neighbor u v g) n =
     map_option (\<lambda>ns. if n = u then (if v \<in> set ns then ns else ns @ [v]) else ns) (map_of g n)"
  by (induction g) (auto simp: add_neighbor_def)

lemma graph_nodes_add_node:
  "map fst (add_node n g) = (if n \<in> set (map fst g) then map fst g else map fst g @ [n])"
  by (auto simp: add_node_def map_of_eq_None_iff)

lemma map_of_add_node:
  "map_of (add_node n g) k = (if k = n \<and> map_of g n = None then Some [] else map_of g k)"
  by (auto simp: add_node_def map_add_def split: option.splits)

lemma has_edge_add_neighbor:
  "has_edge (add_neighbor u v g) x y \<longleftrightarrow> has_edge g x y \<or> (x = u \<and> y = v \<and> map_of g u \<noteq> None)"
  by (cases "map_of g x") (auto simp: has_edge_def map_of_add_neighbor)

lemma has_edge_add_node: "has_edge (add_node n g) x y \<longleftrightarrow> has_edge g x y"
  by (auto simp: has_edge_def map_of_add_node split: option.splits)

lemma is_node_add_neighbor: "map_of (add_neighbor u v g) n = None \<longleftrightarrow> map_of g n = None"
  by (simp add: map_of_add_neighbor)

lemma is_node_add_node: "map_of (add_node n g) k = None \<longleftrightarrow> k \<noteq> n \<and> map_of g k = None"
  by (auto simp: map_of_add_node)

lemma has_edge_add_edge:
  "has_edge (add_edge u v g) x y \<longleftrightarrow> has_edge g x y \<or> (x = u \<and> y = v) \<or> (x = v \<and> y = u)"
  by (auto simp: add_edge_def has_edge_add_neighbor has_edge_add_node is_node_add_neighbor is_node_add_node)

lemma is_node_add_edge: "map_of (add_edge u v g) n = None \<longleftrightarrow> n \<noteq> u \<and> n \<noteq> v \<and> map_of g n = None"
  by (auto simp: add_edge_def is_node_add_neighbor is_node_add_node)

lemma distinct_add_edge: "distinct (map fst g) \<Longrightarrow> distinct (map fst (add_edge u v g))"
  by (simp add: add_edge_def graph_nodes_add_neighbor graph_nodes_add_node)

lemma from_edgelist_snoc: "from_edgelist (edges @ [(u, v)]) = add_edge u v (from_edgelist edges)"
  by (simp add: from_edgelist_def)

lemma distinct_from_edgelist: "distinct (graph_nodes (from_edgelist edges))"
proof (induction edges rule: rev_induct)
  case Nil
  then show ?case by (simp add: from_edgelist_def graph_nodes_def)
next
  case (snoc e edges)
  then show ?case
    by (cases e) (simp add: from_edgelist_snoc graph_nodes_def distinct_add_edge)
qed

lemma is_node_from_edgelist:
  "map_of (from_edgelist edges) n = None \<longleftrightarrow> n \<notin> fst ` set edges \<union> snd ` set edges"
proof (induction edges rule: rev_induct)
  case Nil
  then show ?case by (simp add: from_edgelist_def)
next
  case (snoc e edges)
  then show ?case
    by (cases e) (auto simp: from_edgelist_snoc is_node_add_edge)
qed

lemma set_graph_nodes_from_edgelist:
  "set (graph_nodes (from_edgelist edges)) = fst ` set edges \<union> snd ` set edges"
proof (rule set_eqI)
  fix n
  have "n \<in> set (graph_nodes (from_edgelist edges)) \<longleftrightarrow> map_of (from_edgelist edges) n \<noteq> None"
    by (simp add: graph_nodes_def map_of_eq_None_iff)
  then show "n \<in> set (graph_nodes (from_edgelist edges)) \<longleftrightarrow> n \<in> fst ` set edges \<union> snd ` set edges"
    by (simp add: is_node_from_edgelist)
qed

lemma has_edge_from_edgelist:
  "has_edge (from_edgelist edges) x y \<longleftrightarrow> (x, y) \<in> set edges \<or> (y, x) \<in> set edges"
proof (induction edges rule: rev_induct)
  case Nil
  then show ?case by (simp add: from_edgelist_def has_edge_def)
next
  case (snoc e edges)
  then show ?case
    by (cases e) (auto simp: from_edgelist_snoc has_edge_add_edge)
qed

lemma length_graph_nodes_from_edgelist:
  "length (graph_nodes (from_edgelist edges)) = card (fst ` set edges \<union> snd ` set edges)"
  using distinct_card [OF distinct_from_edgelist [of edges]]
  by (simp add: set_graph_nodes_from_edgelist)

lemma closed_graph_iff:
  "closed_graph g \<longleftrightarrow> (\<forall>n ns v. (n, ns) \<in> set g \<longrightarrow> v \<in> set ns \<longrightarrow> map_of g v \<noteq> None)"
  by (auto simp: closed_graph_def list_all_iff)

lemma closed_from_edgelist: "closed_graph (from_edgelist edges)"
  unfolding closed_graph_iff
proof (intro allI impI)
  fix n ns v
  assume "(n, ns) \<in> set (from_edgelist edges)" "v \<in> set ns"
  moreover have "distinct (map fst (from_edgelist edges))"
    using distinct_from_edgelist [of edges] by (simp add: graph_nodes_def)
  ultimately have "has_edge (from_edgelist edges) n v"
    by (simp add: has_edge_def)
  then show "map_of (from_edgelist edges) v \<noteq> None"
    unfolding has_edge_from_edgelist is_node_from_edgelist by force
qed

lemma neighbors_node:
  assumes "n \<in> set (graph_nodes g)"
  obtains nebs where "neighbors g n = Inr nebs" "set nebs = {v. has_edge g n v}"
proof -
  from assms obtain nebs where "map_of g n = Some nebs"
    by (cases "map_of g n") (auto simp: graph_nodes_def map_of_eq_None_iff)
  then show ?thesis
    by (intro that [of nebs]) (auto simp: neighbors_def has_edge_def)
qed

lemma no_dead_end_from_edgelist:
  assumes "n \<in> set (graph_nodes (from_edgelist edges))"
  shows "\<exists>v. has_edge (from_edgelist edges) n v"
  using assms unfolding set_graph_nodes_from_edgelist has_edge_from_edgelist by force

section \<open>The walk sampler\<close>

lemma successively_nth:
  "successively P xs \<longleftrightarrow> (\<forall>i. Suc i < length xs \<longrightarrow> P (xs ! i) (xs ! Suc i))"
proof (induction P xs rule: successively.induct)
  case (3 P x y xs)
  have "(\<forall>i. Suc i < length (x # y # xs) \<longrightarrow> P ((x # y # xs) ! i) ((x # y # xs) ! Suc i)) \<longleftrightarrow>
        P x y \<and> (\<forall>i. Suc i < length (y # xs) \<longrightarrow> P ((y # xs) ! i) ((y # xs) ! Suc i))"
    (is "?L \<longleftrightarrow> ?R")
  proof
    assume l: ?L
    from l [rule_format, of 0] have "P x y" by simp
    moreover have "P ((y # xs) ! i) ((y # xs) ! Suc i)" if "Suc i < length (y # xs)" for i
      using l [rule_format, of "Suc i"] that by simp
    ultimately show ?R by blast
  next
    assume r: ?R
    show ?L
    proof (intro allI impI)
      fix i assume i: "Suc i < length (x # y # xs)"
      show "P ((x # y # xs) ! i) ((x # y # xs) ! Suc i)"
      proof (cases i)
        case 0
        with r show ?thesis by simp
      next
        case (Suc k)
        with i r [THEN conjunct2, rule_format, of k] show ?thesis by simp
      qed
    qed
  qed
  with 3 show ?case by simp
qed simp_all

lemma successively_snoc:
  "xs \<noteq> [] \<Longrightarrow> successively P (xs @ [y]) \<longleftrightarrow> successively P xs \<and> P (last xs) y"
  by (simp add: successively_append_iff)

lemma random_sample1_Inr:
  assumes "nebs \<noteq> []"
  obtains v r' where "random_sample1 nebs r = Inr ([v], r')" "v \<in> set nebs"
  using assms by (simp add: random_sample1_def randbelow_def)

text \<open>The loop of \<open>do_a_walk\<close>, from any walk so far that ends in a node of a closed graph.\<close>

lemma do_a_walk_loop_path:
  assumes "closed_graph g" and "nodes \<noteq> []" and "last nodes \<in> set (graph_nodes g)"
    and "successively (has_edge g) nodes"
  shows "\<exists>walk r'. do_a_walk_loop g wl nodes r = Inr (walk, r') \<and>
           take (length nodes) walk = nodes \<and>
           int (length walk) \<le> max (int (length nodes)) wl \<and>
           successively (has_edge g) walk \<and>
           set walk \<subseteq> set nodes \<union> set (graph_nodes g) \<and>
           ((\<forall>n \<in> set (graph_nodes g). \<exists>v. has_edge g n v) \<longrightarrow>
              int (length walk) = max (int (length nodes)) wl)"
  using assms
proof (induction g wl nodes r rule: do_a_walk_loop.induct)
  case (1 g wl nodes r)
  define full where "full \<longleftrightarrow> (\<forall>n \<in> set (graph_nodes g). \<exists>v. has_edge g n v)"
  show ?case
    unfolding full_def [symmetric]
  proof (cases "int (length nodes) < wl")
    case False
    then have "do_a_walk_loop g wl nodes r = Inr (nodes, r)"
      by (subst do_a_walk_loop.simps) simp
    moreover have "int (length nodes) = max (int (length nodes)) wl" using False by simp
    ultimately show "\<exists>walk r'. do_a_walk_loop g wl nodes r = Inr (walk, r') \<and>
           take (length nodes) walk = nodes \<and>
           int (length walk) \<le> max (int (length nodes)) wl \<and>
           successively (has_edge g) walk \<and>
           set walk \<subseteq> set nodes \<union> set (graph_nodes g) \<and>
           (full \<longrightarrow> int (length walk) = max (int (length nodes)) wl)"
      using "1.prems"(4) by simp
  next
    case True
    from "1.prems"(3) obtain nebs where nebs: "neighbors g (last nodes) = Inr nebs"
      and nebs_set: "set nebs = {v. has_edge g (last nodes) v}"
      by (rule neighbors_node)
    show "\<exists>walk r'. do_a_walk_loop g wl nodes r = Inr (walk, r') \<and>
           take (length nodes) walk = nodes \<and>
           int (length walk) \<le> max (int (length nodes)) wl \<and>
           successively (has_edge g) walk \<and>
           set walk \<subseteq> set nodes \<union> set (graph_nodes g) \<and>
           (full \<longrightarrow> int (length walk) = max (int (length nodes)) wl)"
    proof (cases "nebs = []")
      case True
      have "\<not> full"
        unfolding full_def using "1.prems"(3) nebs_set True by auto
      moreover have "do_a_walk_loop g wl nodes r = Inr (nodes, r)"
        using nebs True \<open>int (length nodes) < wl\<close> by (subst do_a_walk_loop.simps) simp
      ultimately show ?thesis
        using "1.prems"(4) \<open>int (length nodes) < wl\<close> by simp
    next
      case False
      then obtain v r' where s: "random_sample1 nebs r = Inr ([v], r')" and v: "v \<in> set nebs"
        by (rule random_sample1_Inr)
      from v nebs_set have e: "has_edge g (last nodes) v" by simp
      then obtain ns where ns: "map_of g (last nodes) = Some ns" "v \<in> set ns"
        by (auto simp: has_edge_def split: option.splits)
      then have "(last nodes, ns) \<in> set g" by (auto dest: map_of_SomeD)
      with "1.prems"(1) ns(2) have "map_of g v \<noteq> None"
        unfolding closed_graph_iff by blast
      then have vn: "v \<in> set (graph_nodes g)"
        by (simp add: graph_nodes_def map_of_eq_None_iff)
      have step: "do_a_walk_loop g wl nodes r = do_a_walk_loop g wl (nodes @ [v]) r'"
        using nebs False s True by (subst do_a_walk_loop.simps) simp
      have path: "successively (has_edge g) (nodes @ [v])"
        using "1.prems"(2,4) e by (simp add: successively_snoc)
      have len: "0 < length nebs" using False by simp
      have ne: "nodes @ [v] \<noteq> []" and lastv: "last (nodes @ [v]) \<in> set (graph_nodes g)"
        using vn by simp_all
      from "1.IH" [OF True nebs len s refl "1.prems"(1) ne lastv path]
      obtain walk r'' where w1: "do_a_walk_loop g wl (nodes @ [v]) r' = Inr (walk, r'')"
        and w2: "take (length (nodes @ [v])) walk = nodes @ [v]"
        and w3: "int (length walk) \<le> max (int (length (nodes @ [v]))) wl"
        and w4: "successively (has_edge g) walk"
        and w5: "set walk \<subseteq> set (nodes @ [v]) \<union> set (graph_nodes g)"
        and w6: "full \<longrightarrow> int (length walk) = max (int (length (nodes @ [v]))) wl"
        unfolding full_def by blast
      from w2 have "take (length nodes) (take (length (nodes @ [v])) walk) = take (length nodes) (nodes @ [v])"
        by simp
      then have pre: "take (length nodes) walk = nodes"
        by (simp add: min_def)
      have l3: "int (length walk) \<le> max (int (length nodes)) wl"
        using w3 True by simp
      have l5: "set walk \<subseteq> set nodes \<union> set (graph_nodes g)"
        using w5 vn by auto
      have l6: "full \<longrightarrow> int (length walk) = max (int (length nodes)) wl"
        using w6 True by simp
      from w1 pre l3 w4 l5 l6 show ?thesis
        unfolding step by blast
    qed
  qed
qed

lemma do_a_walk_path:
  assumes "closed_graph g" and "node \<in> set (graph_nodes g)" and "1 \<le> walk_length a"
  shows "\<exists>walk r'. do_a_walk a g node r = Inr (walk, r') \<and> hd walk = node \<and>
           1 \<le> length walk \<and> int (length walk) \<le> walk_length a \<and>
           successively (has_edge g) walk \<and>
           set walk \<subseteq> set (graph_nodes g) \<and>
           ((\<forall>n \<in> set (graph_nodes g). \<exists>v. has_edge g n v) \<longrightarrow> int (length walk) = walk_length a)"
proof -
  have "[node] \<noteq> []" "last [node] \<in> set (graph_nodes g)" "successively (has_edge g) [node]"
    using assms(2) by simp_all
  from do_a_walk_loop_path [OF assms(1) this, of "walk_length a" r]
  obtain walk r' where w1: "do_a_walk_loop g (walk_length a) [node] r = Inr (walk, r')"
    and w2: "take (length [node]) walk = [node]"
    and w3: "int (length walk) \<le> max (int (length [node])) (walk_length a)"
    and w4: "successively (has_edge g) walk"
    and w5: "set walk \<subseteq> set [node] \<union> set (graph_nodes g)"
    and w6: "(\<forall>n \<in> set (graph_nodes g). \<exists>v. has_edge g n v) \<longrightarrow>
              int (length walk) = max (int (length [node])) (walk_length a)"
    by blast
  from w2 have ne: "walk \<noteq> []" by auto
  with w2 have h: "hd walk = node" by (cases walk) simp_all
  from ne have l1: "1 \<le> length walk" by (cases walk) simp_all
  from w3 assms(3) have l2: "int (length walk) \<le> walk_length a" by simp
  from w5 assms(2) have l5: "set walk \<subseteq> set (graph_nodes g)" by auto
  from w6 assms(3) have l6: "(\<forall>n \<in> set (graph_nodes g). \<exists>v. has_edge g n v) \<longrightarrow>
      int (length walk) = walk_length a" by simp
  from w1 h l1 l2 w4 l5 l6 show ?thesis
    unfolding do_a_walk_def by blast
qed

lemma do_a_walk_short: "walk_length a < 1 \<Longrightarrow> do_a_walk a g node r = Inr ([node], r)"
  unfolding do_a_walk_def by (subst do_a_walk_loop.simps) simp

text \<open>
  Claim C3, as amended. For a walk length of at least 1, on a graph whose listed
  neighbours are all nodes and from a source node of it, \<open>do_a_walk\<close> returns a walk that
  starts at the source, has between 1 and \<open>walk_length\<close> nodes, and steps along an edge of
  the graph between every two consecutive nodes. On the graph of an edge list (where no
  node is a dead end) the walk has exactly \<open>walk_length\<close> nodes and every step is an edge
  of the list, in one direction or the other. For a walk length below 1 the walk is the
  source node alone.
\<close>

theorem do_a_walk_follows_edges:
  "(closed_graph g \<and> node \<in> set (graph_nodes g) \<and> 1 \<le> walk_length a \<longrightarrow>
      (\<exists>walk r'. do_a_walk a g node r = Inr (walk, r') \<and> hd walk = node \<and>
         1 \<le> length walk \<and> int (length walk) \<le> walk_length a \<and>
         (\<forall>i. Suc i < length walk \<longrightarrow> has_edge g (walk ! i) (walk ! Suc i)))) \<and>
   (node \<in> set (graph_nodes (from_edgelist edges)) \<and> 1 \<le> walk_length a \<longrightarrow>
      (\<exists>walk r'. do_a_walk a (from_edgelist edges) node r = Inr (walk, r') \<and> hd walk = node \<and>
         int (length walk) = walk_length a \<and>
         (\<forall>i. Suc i < length walk \<longrightarrow>
            (walk ! i, walk ! Suc i) \<in> set edges \<or> (walk ! Suc i, walk ! i) \<in> set edges))) \<and>
   (walk_length a < 1 \<longrightarrow> do_a_walk a g node r = Inr ([node], r))"
proof (intro conjI impI)
  assume "closed_graph g \<and> node \<in> set (graph_nodes g) \<and> 1 \<le> walk_length a"
  then have "closed_graph g" "node \<in> set (graph_nodes g)" "1 \<le> walk_length a" by simp_all
  from do_a_walk_path [OF this, of r]
  show "\<exists>walk r'. do_a_walk a g node r = Inr (walk, r') \<and> hd walk = node \<and>
         1 \<le> length walk \<and> int (length walk) \<le> walk_length a \<and>
         (\<forall>i. Suc i < length walk \<longrightarrow> has_edge g (walk ! i) (walk ! Suc i))"
    unfolding successively_nth by blast
next
  let ?g = "from_edgelist edges"
  assume "node \<in> set (graph_nodes ?g) \<and> 1 \<le> walk_length a"
  then have n: "node \<in> set (graph_nodes ?g)" and l: "1 \<le> walk_length a" by simp_all
  have full: "\<forall>n \<in> set (graph_nodes ?g). \<exists>v. has_edge ?g n v"
    using no_dead_end_from_edgelist by blast
  from do_a_walk_path [OF closed_from_edgelist n l, of r] full
  obtain walk r' where w: "do_a_walk a ?g node r = Inr (walk, r')" "hd walk = node"
    "int (length walk) = walk_length a" "successively (has_edge ?g) walk"
    by blast
  from w(4) have "\<forall>i. Suc i < length walk \<longrightarrow>
            (walk ! i, walk ! Suc i) \<in> set edges \<or> (walk ! Suc i, walk ! i) \<in> set edges"
    unfolding successively_nth has_edge_from_edgelist .
  with w(1-3) show "\<exists>walk r'. do_a_walk a ?g node r = Inr (walk, r') \<and> hd walk = node \<and>
         int (length walk) = walk_length a \<and>
         (\<forall>i. Suc i < length walk \<longrightarrow>
            (walk ! i, walk ! Suc i) \<in> set edges \<or> (walk ! Suc i, walk ! i) \<in> set edges)"
    by blast
next
  assume "walk_length a < 1"
  then show "do_a_walk a g node r = Inr ([node], r)" by (rule do_a_walk_short)
qed

theorem do_a_walk_follows_edges_witness:
  "closed_graph (from_edgelist [(0, 1), (1, 2), (2, 0)]) \<and>
   0 \<in> set (graph_nodes (from_edgelist [(0, 1), (1, 2), (2, 0)])) \<and>
   map_sum id fst (do_a_walk \<lparr>walk_length = 4, number_of_walks = 1, window_size = 1, pruning_threshold = 0\<rparr>
      (from_edgelist [(0, 1), (1, 2), (2, 0)]) 0 (id, 0)) = Inr [0, 1, 2, 1] \<and>
   (\<exists>walk r'. do_a_walk \<lparr>walk_length = 4, number_of_walks = 1, window_size = 1, pruning_threshold = 0\<rparr>
      (from_edgelist [(0, 1), (1, 2), (2, 0)]) 0 (id, 0) = Inr (walk, r') \<and> hd walk = 0 \<and>
      int (length walk) = 4) \<and>
   map_sum id fst (do_a_walk \<lparr>walk_length = 0, number_of_walks = 1, window_size = 1, pruning_threshold = 0\<rparr>
      (from_edgelist [(0, 1), (1, 2), (2, 0)]) 0 (id, 0)) = Inr [0]"
proof -
  let ?a = "\<lparr>walk_length = 4, number_of_walks = 1, window_size = 1, pruning_threshold = 0\<rparr>"
  let ?short = "\<lparr>walk_length = 0, number_of_walks = 1, window_size = 1, pruning_threshold = 0\<rparr>"
  let ?e = "[(0 :: nat, 1 :: nat), (1, 2), (2, 0)]"
  have c: "closed_graph (from_edgelist ?e)" by code_simp
  have n: "0 \<in> set (graph_nodes (from_edgelist ?e))" by code_simp
  have v: "map_sum id fst (do_a_walk ?a (from_edgelist ?e) 0 (id, 0)) = Inr [0, 1, 2, 1]" by code_simp
  have l: "1 \<le> walk_length ?a" by simp
  note t = do_a_walk_follows_edges [where g = "from_edgelist ?e" and edges = ?e and node = 0 and r = "(id, 0)"]
  from t [where a = ?a, THEN conjunct2, THEN conjunct1] n l
  have e: "\<exists>walk r'. do_a_walk ?a (from_edgelist ?e) 0 (id, 0) = Inr (walk, r') \<and> hd walk = 0 \<and>
      int (length walk) = 4"
    by auto
  from t [where a = ?short, THEN conjunct2, THEN conjunct2]
  have s: "map_sum id fst (do_a_walk ?short (from_edgelist ?e) 0 (id, 0)) = Inr [0]"
    by simp
  from c n v e s show ?thesis by blast
qed

text \<open>
  Claim C3 as stated, for every configured walk length, fails: the walk length is any
  integer that the argument parser accepts, and at walk length 0 the walk from node 0 is
  \<open>[0]\<close>, whose length 1 is not in the empty range from 1 to 0.
\<close>

theorem do_a_walk_length_counterexample:
  "0 \<in> set (graph_nodes (from_edgelist [(0, 1)])) \<and>
   map_sum id fst (do_a_walk \<lparr>walk_length = 0, number_of_walks = 10, window_size = 3, pruning_threshold = 10\<rparr>
      (from_edgelist [(0, 1)]) 0 (id, 0)) = Inr [0] \<and>
   \<not> (int (length [0 :: nat])
        \<le> walk_length \<lparr>walk_length = 0, number_of_walks = 10, window_size = 3, pruning_threshold = 10\<rparr>)"
  by (simp add: do_a_walk_short from_edgelist_def add_edge_def add_node_def add_neighbor_def graph_nodes_def)

section \<open>The pipeline: shape of the matrix\<close>

lemma comprehension_results:
  assumes "comprehension f xs = Inr ys" and "y \<in> set ys"
  shows "\<exists>x \<in> set xs. f x = Inr y"
  using assms
proof (induction xs arbitrary: ys)
  case Nil
  then show ?case by simp
next
  case (Cons x xs)
  then show ?case by (auto split: sum.splits)
qed

lemma comprehension_all_Inr:
  assumes "\<And>x. x \<in> set xs \<Longrightarrow> \<exists>y. f x = Inr y"
  shows "\<exists>ys. comprehension f xs = Inr ys"
  using assms
proof (induction xs)
  case Nil
  then show ?case by simp
next
  case (Cons x xs)
  then obtain y ys where "f x = Inr y" "comprehension f xs = Inr ys"
    by (metis list.set_intros(1) list.set_intros(2))
  then show ?case by simp
qed

lemma slice_to_subset: "set (slice_to xs e) \<subseteq> set xs"
  by (simp add: slice_to_def set_take_subset)

lemma slice_from_subset: "set (slice_from xs s) \<subseteq> set xs"
  by (simp add: slice_from_def set_drop_subset)

lemma forward_pairs_within:
  assumes "forward_pairs sources nebs = Inr fw" and "(x, y) \<in> set fw"
  shows "x \<in> set sources \<and> y \<in> set nebs"
proof -
  from comprehension_results [OF assms(1) [unfolded forward_pairs_def] assms(2)]
  obtain i s where "(i, s) \<in> set (enumerate 0 sources)"
    and "(case getitem nebs i of Inl e \<Rightarrow> Inl e | Inr n \<Rightarrow> Inr (s, n)) = Inr (x, y)"
    by auto
  then show ?thesis
    by (auto simp: in_set_enumerate_eq getitem_def split: if_splits)
qed

lemma offset_pairs_within:
  assumes "offset_pairs walk omega = Inr ps" and "(x, y) \<in> set ps"
  shows "x \<in> set walk \<and> y \<in> set walk"
proof -
  let ?sources = "slice_to walk (int (length walk) - omega)"
  let ?nebs = "slice_from walk omega"
  from assms(1) obtain fw where fw: "forward_pairs ?sources ?nebs = Inr fw"
    by (auto simp: offset_pairs_def Let_def split: sum.splits)
  with assms(1) have "ps = fw @ map prod.swap fw"
    by (simp add: offset_pairs_def Let_def reverse_pairs_of_forward [OF fw])
  with assms(2) have "(x, y) \<in> set fw \<or> (y, x) \<in> set fw" by auto
  then have "x \<in> set ?sources \<union> set ?nebs \<and> y \<in> set ?sources \<union> set ?nebs"
    using forward_pairs_within [OF fw] by blast
  then show ?thesis
    using slice_to_subset [of walk] slice_from_subset [of walk] by blast
qed

lemma processor_loop_within:
  assumes "processor_loop walk omegas pairs = Inr ps" and "(x, y) \<in> set ps"
  shows "(x, y) \<in> set pairs \<or> x \<in> set walk \<and> y \<in> set walk"
  using assms
proof (induction omegas arbitrary: pairs)
  case Nil
  then show ?case by simp
next
  case (Cons omega omegas)
  from Cons.prems(1) obtain new where new: "offset_pairs walk omega = Inr new"
    and rest: "processor_loop walk omegas (pairs @ new) = Inr ps"
    by (auto split: sum.splits)
  from Cons.IH [OF rest Cons.prems(2)] offset_pairs_within [OF new, of x y]
  show ?case by auto
qed

lemma processor_within_walk:
  assumes "processor a walk = Inr ps" and "(x, y) \<in> set ps"
  shows "x \<in> set walk \<and> y \<in> set walk"
  using processor_loop_within [OF assms(1) [unfolded processor_def] assms(2)] by simp

lemma processor_returns:
  assumes "int (length walk) = max 1 wl" and "window_size a \<le> wl \<or> wl \<le> 1"
  shows "\<exists>ps. processor a walk = Inr ps"
proof (cases "wl \<le> 1")
  case True
  with assms(1) have "length walk = 1" by simp
  then obtain v where "walk = [v]" by (cases walk) auto
  then show ?thesis by (simp add: processor_singleton)
next
  case False
  with assms have "window_size a \<le> int (length walk)" by simp
  then show ?thesis by (simp add: processor_within)
qed

text \<open>Every walk of the corpus stays in the graph and, without dead ends, has full length.\<close>

lemma do_a_walk_full:
  assumes "closed_graph g" and "\<forall>n \<in> set (graph_nodes g). \<exists>v. has_edge g n v"
    and "node \<in> set (graph_nodes g)"
  shows "\<exists>walk r'. do_a_walk a g node r = Inr (walk, r') \<and> set walk \<subseteq> set (graph_nodes g) \<and>
           int (length walk) = max 1 (walk_length a)"
proof (cases "1 \<le> walk_length a")
  case True
  from do_a_walk_path [OF assms(1,3) True, of r] assms(2) True show ?thesis
    by (auto simp: max_def)
next
  case False
  then have "do_a_walk a g node r = Inr ([node], r)" by (simp add: do_a_walk_short)
  with assms(3) False show ?thesis by simp
qed

lemma walks_from_full:
  assumes "closed_graph g" and "\<forall>n \<in> set (graph_nodes g). \<exists>v. has_edge g n v"
    and "set ns \<subseteq> set (graph_nodes g)"
    and "\<forall>w \<in> set walks. set w \<subseteq> set (graph_nodes g) \<and> int (length w) = max 1 (walk_length a)"
  shows "\<exists>walks' r'. walks_from a g ns walks r = Inr (walks', r') \<and>
           (\<forall>w \<in> set walks'. set w \<subseteq> set (graph_nodes g) \<and> int (length w) = max 1 (walk_length a))"
  using assms(3,4)
proof (induction ns arbitrary: walks r)
  case Nil
  then show ?case by simp
next
  case (Cons n ns)
  from Cons.prems(1) have n: "n \<in> set (graph_nodes g)" and ns: "set ns \<subseteq> set (graph_nodes g)"
    by simp_all
  from do_a_walk_full [OF assms(1,2) n, of a r] obtain walk r'
    where w: "do_a_walk a g n r = Inr (walk, r')" "set walk \<subseteq> set (graph_nodes g)"
      "int (length walk) = max 1 (walk_length a)"
    by blast
  have "\<forall>w \<in> set (walks @ [walk]). set w \<subseteq> set (graph_nodes g) \<and> int (length w) = max 1 (walk_length a)"
    using Cons.prems(2) w(2,3) by auto
  from Cons.IH [OF ns this, of r'] show ?case
    by (simp add: w(1))
qed

lemma do_walks_loop_full:
  assumes "closed_graph g" and "\<forall>n \<in> set (graph_nodes g). \<exists>v. has_edge g n v"
    and "\<forall>w \<in> set walks. set w \<subseteq> set (graph_nodes g) \<and> int (length w) = max 1 (walk_length a)"
  shows "\<exists>walks' r'. do_walks_loop a g k walks r = Inr (walks', r') \<and>
           (\<forall>w \<in> set walks'. set w \<subseteq> set (graph_nodes g) \<and> int (length w) = max 1 (walk_length a))"
  using assms(3)
proof (induction k arbitrary: walks r)
  case 0
  then show ?case by simp
next
  case (Suc k)
  from walks_from_full [OF assms(1,2) subset_refl Suc.prems, of r] obtain walks' r'
    where w: "walks_from a g (graph_nodes g) walks r = Inr (walks', r')"
      "\<forall>w \<in> set walks'. set w \<subseteq> set (graph_nodes g) \<and> int (length w) = max 1 (walk_length a)"
    by blast
  from Suc.IH [OF w(2), of r'] show ?case
    by (simp add: w(1))
qed

lemma do_walks_full:
  assumes "closed_graph g" and "\<forall>n \<in> set (graph_nodes g). \<exists>v. has_edge g n v"
  shows "\<exists>walks r'. do_walks a g r = Inr (walks, r') \<and>
           (\<forall>w \<in> set walks. set w \<subseteq> set (graph_nodes g) \<and> int (length w) = max 1 (walk_length a))"
  unfolding do_walks_def by (rule do_walks_loop_full [OF assms]) simp

lemma corpus_within:
  assumes "comprehension (processor a) walks = Inr container" and "(x, y) \<in> set (concat container)"
  shows "\<exists>w \<in> set walks. x \<in> set w \<and> y \<in> set w"
proof -
  from assms(2) obtain ps where ps: "ps \<in> set container" "(x, y) \<in> set ps" by auto
  from comprehension_results [OF assms(1) ps(1)] obtain w where "w \<in> set walks" "processor a w = Inr ps"
    by blast
  with processor_within_walk [OF _ ps(2)] show ?thesis by blast
qed

lemma DeepWalker_dense_returns:
  assumes dense: "fst ` set edges \<union> snd ` set edges = {..<N}"
    and window: "window_size a \<le> walk_length a \<or> walk_length a \<le> 1"
  shows "\<exists>dw r'. DeepWalker a edges r = Inr (dw, r') \<and> shape (dw_A dw) = (N, N)"
proof -
  let ?g = "from_edgelist edges"
  have nodes: "set (graph_nodes ?g) = {..<N}"
    by (simp add: set_graph_nodes_from_edgelist dense)
  have N: "length (graph_nodes ?g) = N"
    by (simp add: length_graph_nodes_from_edgelist dense)
  have full: "\<forall>n \<in> set (graph_nodes ?g). \<exists>v. has_edge ?g n v"
    using no_dead_end_from_edgelist by blast
  from do_walks_full [OF closed_from_edgelist full, of a r] obtain walks r'
    where w: "do_walks a ?g r = Inr (walks, r')"
      and ws: "\<forall>w \<in> set walks. set w \<subseteq> set (graph_nodes ?g) \<and> int (length w) = max 1 (walk_length a)"
    by blast
  have "\<exists>ps. processor a w = Inr ps" if "w \<in> set walks" for w
    using ws that window by (intro processor_returns [of w "walk_length a"]) auto
  from comprehension_all_Inr [of walks "processor a", OF this] obtain container
    where c: "comprehension (processor a) walks = Inr container"
    by blast
  define p where "p = prune (pruning_threshold a) (Counter (concat container))"
  have "fst (fst x) < N \<and> snd (fst x) < N" if "x \<in> set p" for x
  proof -
    obtain i j v where x: "x = ((i, j), v)" by (cases x) auto
    with that have "(i, j) \<in> set (concat container)"
      by (simp add: p_def prune_items Counter_items del: set_concat)
    from corpus_within [OF c this] ws nodes show ?thesis
      by (auto simp: x)
  qed
  then have "do_processing a (N, N) walks = Inr (p, \<lparr>shape = (N, N), dtype = Float32, cells = p\<rparr>)"
    unfolding do_processing_value [OF c] Let_def p_def [symmetric] by simp
  with DeepWalker_returns [of a edges r walks r' p "\<lparr>shape = (N, N), dtype = Float32, cells = p\<rparr>"] w N
  show ?thesis by auto
qed

text \<open>
  Claim C7. Whenever the constructor returns, the matrix has the shape \<open>(N, N)\<close> with \<open>N\<close>
  the number of distinct nodes that occur in the edge list, whatever was pruned. When the
  nodes of the edge list are exactly \<open>0, ..., N - 1\<close> and the window size does not exceed
  the walk length (or the walk length is at most 1), the constructor does return, for
  every pruning threshold.
\<close>

theorem matrix_shape_is_node_count:
  "(DeepWalker a edges r = Inr (dw, r') \<longrightarrow>
      shape (dw_A dw) = (card (fst ` set edges \<union> snd ` set edges), card (fst ` set edges \<union> snd ` set edges)) \<and>
      dw_shape dw = shape (dw_A dw)) \<and>
   (fst ` set edges \<union> snd ` set edges = {..<N} \<and> (window_size a \<le> walk_length a \<or> walk_length a \<le> 1) \<longrightarrow>
      (\<exists>dw r'. DeepWalker a edges r = Inr (dw, r') \<and> shape (dw_A dw) = (N, N)))"
proof (intro conjI impI)
  assume run: "DeepWalker a edges r = Inr (dw, r')"
  note parts = DeepWalker_Inr [OF run]
  from do_processing_cells(2) [OF parts(2)] have "shape (dw_A dw) = dw_shape dw" .
  then show "shape (dw_A dw) = (card (fst ` set edges \<union> snd ` set edges), card (fst ` set edges \<union> snd ` set edges))"
    and "dw_shape dw = shape (dw_A dw)"
    by (simp_all add: parts(3) length_graph_nodes_from_edgelist)
next
  assume "fst ` set edges \<union> snd ` set edges = {..<N} \<and> (window_size a \<le> walk_length a \<or> walk_length a \<le> 1)"
  then show "\<exists>dw r'. DeepWalker a edges r = Inr (dw, r') \<and> shape (dw_A dw) = (N, N)"
    using DeepWalker_dense_returns [of edges N a r] by blast
qed

theorem matrix_shape_is_node_count_witness:
  "map_sum id (dw_A \<circ> fst)
     (DeepWalker \<lparr>walk_length = 3, number_of_walks = 2, window_size = 2, pruning_threshold = 1000\<rparr>
        [(0, 1), (1, 2), (2, 0), (3, 0)] (id, 0))
     = Inr \<lparr>shape = (4, 4), dtype = Float32, cells = []\<rparr> \<and>
   fst ` set [(0 :: nat, 1 :: nat), (1, 2), (2, 0), (3, 0)] \<union> snd ` set [(0 :: nat, 1 :: nat), (1, 2), (2, 0), (3, 0)] = {..<4} \<and>
   (\<exists>dw r'. DeepWalker \<lparr>walk_length = 3, number_of_walks = 2, window_size = 2, pruning_threshold = 1000\<rparr>
        [(0, 1), (1, 2), (2, 0), (3, 0)] (id, 0) = Inr (dw, r') \<and> shape (dw_A dw) = (4, 4)) \<and>
   (\<exists>dw r'. DeepWalker \<lparr>walk_length = 3, number_of_walks = 2, window_size = 2, pruning_threshold = 0\<rparr>
        [(0, 1), (1, 2), (2, 0), (3, 0)] (id, 0) = Inr (dw, r') \<and> shape (dw_A dw) = (4, 4))"
proof -
  let ?args = "\<lparr>walk_length = 3, number_of_walks = 2, window_size = 2, pruning_threshold = 1000\<rparr>"
  let ?e = "[(0 :: nat, 1 :: nat), (1, 2), (2, 0), (3, 0)]"
  have v: "map_sum id (dw_A \<circ> fst) (DeepWalker ?args ?e (id, 0))
     = Inr \<lparr>shape = (4, 4), dtype = Float32, cells = []\<rparr>"
    by code_simp
  have d: "fst ` set ?e \<union> snd ` set ?e = {..<4}"
    by (auto simp: lessThan_def)
  have w: "window_size ?args \<le> walk_length ?args \<or> walk_length ?args \<le> 1" by simp
  have w': "window_size (?args\<lparr>pruning_threshold := 0\<rparr>) \<le> walk_length (?args\<lparr>pruning_threshold := 0\<rparr>)
            \<or> walk_length (?args\<lparr>pruning_threshold := 0\<rparr>) \<le> 1" by simp
  from matrix_shape_is_node_count [where edges = ?e and N = 4 and r = "(id, 0)" and a = ?args, THEN conjunct2] d w
  have e1: "\<exists>dw r'. DeepWalker ?args ?e (id, 0) = Inr (dw, r') \<and> shape (dw_A dw) = (4, 4)"
    by blast
  from matrix_shape_is_node_count [where edges = ?e and N = 4 and r = "(id, 0)"
      and a = "?args\<lparr>pruning_threshold := 0\<rparr>", THEN conjunct2] d w'
  have e2: "\<exists>dw r'. DeepWalker (?args\<lparr>pruning_threshold := 0\<rparr>) ?e (id, 0) = Inr (dw, r') \<and> shape (dw_A dw) = (4, 4)"
    by blast
  from v d e1 e2 show ?thesis by simp
qed

section \<open>Properties of sampling\<close>










section \<open>Properties of read_matrix\<close>
















end
